theory Spec2Isabelle
  imports Main "HOL-Library.Signed_Division"
begin

unbundle bit_operations_syntax

section \<open>Machine integers of the C++ source\<close>

text \<open>
  Every function of \<^verbatim>\<open>Crypto-RSA-Algorithm.cpp\<close> is a template over an integer
  type \<^verbatim>\<open>int_type\<close>; \<^verbatim>\<open>main\<close> instantiates them at \<^verbatim>\<open>unsigned\<close>. The embedding
  covers the integer types of rank at least \<^verbatim>\<open>int\<close> (narrower types would be
  promoted to \<^verbatim>\<open>int\<close> before every operation), with a 32-bit \<^verbatim>\<open>int\<close> and a
  64-bit \<^verbatim>\<open>long long\<close>. A value of such a type is the mathematical integer it
  denotes; the width and the signedness decide what an operation does with a
  result that does not fit.
\<close>

datatype int_type = T_int | T_unsigned | T_long_long | T_unsigned_long_long

fun is_signed :: "int_type \<Rightarrow> bool" where
  "is_signed T_int = True"
| "is_signed T_unsigned = False"
| "is_signed T_long_long = True"
| "is_signed T_unsigned_long_long = False"

fun width :: "int_type \<Rightarrow> nat" where
  "width T_int = 32"
| "width T_unsigned = 32"
| "width T_long_long = 64"
| "width T_unsigned_long_long = 64"

definition min_val :: "int_type \<Rightarrow> int" where
  "min_val T = (if is_signed T then - (2 ^ (width T - 1)) else 0)"

definition max_val :: "int_type \<Rightarrow> int" where
  "max_val T = (if is_signed T then 2 ^ (width T - 1) - 1 else 2 ^ width T - 1)"

definition in_range :: "int_type \<Rightarrow> int \<Rightarrow> bool" where
  "in_range T x = (min_val T \<le> x \<and> x \<le> max_val T)"

text \<open>
  Conversion of a value to the type \<open>T\<close>: reduction modulo \<open>2 ^ width T\<close>, read as
  two's complement when \<open>T\<close> is signed (the rule of C++20, and what compilers did
  before it for an out-of-range conversion to a signed type).
\<close>

definition convert :: "int_type \<Rightarrow> int \<Rightarrow> int" where
  "convert T x =
     (if is_signed T then (x + 2 ^ (width T - 1)) mod 2 ^ width T - 2 ^ (width T - 1)
      else x mod 2 ^ width T)"

text \<open>
  What can go wrong in the source: a division or remainder by zero, and a signed
  operation whose result is not representable (undefined behaviour in C++).
  Both are results of the model, so that a theorem giving \<open>Inr v\<close> says that the
  code ran without either. Unsigned arithmetic wraps around and never faults.
\<close>

datatype fault = DivisionByZero | SignedOverflow

fun rbind :: "fault + 'a \<Rightarrow> ('a \<Rightarrow> fault + 'b) \<Rightarrow> fault + 'b" where
  "rbind (Inl e) f = Inl e"
| "rbind (Inr v) f = f v"

lemma rbind_Inr_iff: "rbind m f = Inr v \<longleftrightarrow> (\<exists>u. m = Inr u \<and> f u = Inr v)"
  by (cases m) auto

text \<open>The value of an arithmetic operator at type \<open>T\<close> whose exact result is \<open>x\<close>.\<close>

definition arith :: "int_type \<Rightarrow> int \<Rightarrow> fault + int" where
  "arith T x =
     (if is_signed T then (if in_range T x then Inr x else Inl SignedOverflow)
      else Inr (x mod 2 ^ width T))"

definition c_add :: "int_type \<Rightarrow> int \<Rightarrow> int \<Rightarrow> fault + int" where
  "c_add T a b = arith T (a + b)"

definition c_sub :: "int_type \<Rightarrow> int \<Rightarrow> int \<Rightarrow> fault + int" where
  "c_sub T a b = arith T (a - b)"

definition c_mul :: "int_type \<Rightarrow> int \<Rightarrow> int \<Rightarrow> fault + int" where
  "c_mul T a b = arith T (a * b)"

definition c_neg :: "int_type \<Rightarrow> int \<Rightarrow> fault + int" where
  "c_neg T a = arith T (- a)"

text \<open>
  \<^verbatim>\<open>a / b\<close> and \<^verbatim>\<open>a % b\<close> truncate towards zero (\<open>sdiv\<close>, \<open>smod\<close>). Both fault on
  \<open>b = 0\<close>, and both are undefined when the quotient is not representable.
\<close>

definition c_div :: "int_type \<Rightarrow> int \<Rightarrow> int \<Rightarrow> fault + int" where
  "c_div T a b = (if b = 0 then Inl DivisionByZero else arith T (a sdiv b))"

definition c_mod :: "int_type \<Rightarrow> int \<Rightarrow> int \<Rightarrow> fault + int" where
  "c_mod T a b =
     (if b = 0 then Inl DivisionByZero
      else rbind (arith T (a sdiv b)) (\<lambda>q. Inr (a smod b)))"

lemma abs_smod_less: "b \<noteq> 0 \<Longrightarrow> \<bar>a smod b\<bar> < \<bar>b\<bar>" for a b :: int
  using smod_int_range [where a = a and b = b] by auto

lemma c_mod_Inr: "c_mod T a b = Inr r \<Longrightarrow> b \<noteq> 0 \<and> r = a smod b"
  by (cases "arith T (a sdiv b)") (auto simp: c_mod_def split: if_splits)

section \<open>Integer utilities\<close>

text \<open>\<^verbatim>\<open>swapCustom(a, b)\<close> exchanges its two reference arguments: the pair, swapped.\<close>

fun swapCustom :: "'a \<times> 'a \<Rightarrow> 'a \<times> 'a" where
  "swapCustom (a, b) = (b, a)"

text \<open>
  \<^verbatim>\<open>abs(x)\<close>: \<^verbatim>\<open>x\<close> itself when \<^verbatim>\<open>num_type\<close> is \<^verbatim>\<open>unsigned\<close>, else
  \<^verbatim>\<open>(x < 0) ? 0 - x : x\<close>, the subtraction at the type of \<^verbatim>\<open>x\<close>. (For an \<^verbatim>\<open>int\<close>
  or \<^verbatim>\<open>long long\<close> argument overload resolution may prefer the library's \<^verbatim>\<open>abs\<close>,
  which returns the same values and overflows on the same argument, the minimum
  of the type.)
\<close>

definition abs_cpp :: "int_type \<Rightarrow> int \<Rightarrow> fault + int" where
  "abs_cpp T x = (if T = T_unsigned then Inr x else if x < 0 then c_sub T 0 x else Inr x)"

text \<open>\<^verbatim>\<open>isEven(a)\<close> is \<^verbatim>\<open>!(a & 1)\<close>.\<close>

definition isEven :: "int \<Rightarrow> bool" where
  "isEven a = (\<not> (a AND 1 \<noteq> 0))"

section \<open>GCD engine\<close>

text \<open>
  \<^verbatim>\<open>while (tb) ta %= tb, swapCustom(ta, tb);\<close> Each round replaces \<open>ta\<close> by
  \<open>ta % tb\<close> and then swaps the two.
\<close>

function gcd_loop :: "int_type \<Rightarrow> int \<Rightarrow> int \<Rightarrow> fault + int" where
  "gcd_loop T ta tb =
     (if tb = 0 then Inr ta
      else case c_mod T ta tb of
             Inl e \<Rightarrow> Inl e
           | Inr r \<Rightarrow> (case swapCustom (r, tb) of (ta', tb') \<Rightarrow> gcd_loop T ta' tb'))"
  by pat_completeness auto
termination
proof (relation "measure (\<lambda>(T, ta, tb). nat \<bar>tb\<bar>)", goal_cases)
  case 1
  show ?case by simp
next
  case 2
  then show ?case
    by (auto dest!: c_mod_Inr simp: abs_smod_less)
qed

declare gcd_loop.simps [simp del]

definition gcd_cpp :: "int_type \<Rightarrow> int \<Rightarrow> int \<Rightarrow> fault + int" where
  "gcd_cpp T a b =
     rbind (abs_cpp T a) (\<lambda>ta. rbind (abs_cpp T b) (\<lambda>tb.
       case (if ta < tb then swapCustom (ta, tb) else (ta, tb)) of
         (ta', tb') \<Rightarrow> gcd_loop T ta' tb'))"

definition isCoprime :: "int_type \<Rightarrow> int \<Rightarrow> int \<Rightarrow> fault + bool" where
  "isCoprime T a b = rbind (gcd_cpp T a b) (\<lambda>g. Inr (g = 1))"

section \<open>Modular inverse engine\<close>

text \<open>
  \<^verbatim>\<open>invMul(valB, valA)\<close> keeps its working variables \<^verbatim>\<open>a, b, y, y1, q, t\<close>
  in \<^verbatim>\<open>int\<close>, whatever \<^verbatim>\<open>int_type\<close> is. One round of its loop:
  \<^verbatim>\<open>q = a / b; t = a % b, a = b; b = t; t = y - y1 * q, y = y1, y1 = t;\<close>
\<close>

definition invMul_step ::
  "int \<Rightarrow> int \<Rightarrow> int \<Rightarrow> int \<Rightarrow> fault + (int \<times> int \<times> int \<times> int)" where
  "invMul_step a b y y1 =
     rbind (c_div T_int a b) (\<lambda>q.
     rbind (c_mod T_int a b) (\<lambda>t.
     rbind (c_mul T_int y1 q) (\<lambda>p.
     rbind (c_sub T_int y p) (\<lambda>t'.
     Inr (b, t, y1, t')))))"

lemma invMul_step_Inr:
  "invMul_step a b y y1 = Inr (a', b', y', y1') \<Longrightarrow> b \<noteq> 0 \<and> b' = a smod b"
  by (auto simp: invMul_step_def rbind_Inr_iff dest: c_mod_Inr)

text \<open>\<^verbatim>\<open>while (b) { ... }\<close>; the values of \<^verbatim>\<open>a\<close> and \<^verbatim>\<open>y\<close> are used after it.\<close>

function invMul_loop :: "int \<Rightarrow> int \<Rightarrow> int \<Rightarrow> int \<Rightarrow> fault + (int \<times> int)" where
  "invMul_loop a b y y1 =
     (if b = 0 then Inr (a, y)
      else case invMul_step a b y y1 of
             Inl e \<Rightarrow> Inl e
           | Inr (a', b', y', y1') \<Rightarrow> invMul_loop a' b' y' y1')"
  by pat_completeness auto
termination
proof (relation "measure (\<lambda>(a, b, y, y1). nat \<bar>b\<bar>)", goal_cases)
  case 1
  show ?case by simp
next
  case 2
  then show ?case
    by (auto dest!: invMul_step_Inr simp: abs_smod_less)
qed

declare invMul_loop.simps [simp del]

text \<open>
  The whole function. \<^verbatim>\<open>int a = abs(valA), b = abs(valB)\<close> converts the two
  absolute values from \<^verbatim>\<open>int_type\<close> to \<^verbatim>\<open>int\<close>. In \<^verbatim>\<open>y += abs(valA)\<close> the
  sum is formed at \<^verbatim>\<open>int_type\<close> (the common type of \<^verbatim>\<open>int\<close> and a type of rank at
  least \<^verbatim>\<open>int\<close>) and converted back to \<^verbatim>\<open>int\<close>; \<^verbatim>\<open>valB < 0\<close> compares at
  \<^verbatim>\<open>int_type\<close>; \<^verbatim>\<open>-y\<close> is an \<^verbatim>\<open>int\<close> negation; the result is \<^verbatim>\<open>int_type(y)\<close>.
\<close>

definition invMul :: "int_type \<Rightarrow> int \<Rightarrow> int \<Rightarrow> fault + int" where
  "invMul T valB valA =
     rbind (abs_cpp T valA) (\<lambda>absA.
     rbind (abs_cpp T valB) (\<lambda>absB.
     rbind (invMul_loop (convert T_int absA) (convert T_int absB) 0 1) (\<lambda>(a, y).
       if a \<noteq> 1 then Inr 0
       else
         rbind (if y < 0
                then rbind (abs_cpp T valA) (\<lambda>absA'.
                     rbind (c_add T (convert T y) absA') (\<lambda>s. Inr (convert T_int s)))
                else Inr y) (\<lambda>y'.
         rbind (if valB < 0 then c_neg T_int y' else Inr y') (\<lambda>y''.
         Inr (convert T y''))))))"

section \<open>Modular exponentiation engine\<close>

definition modMul :: "int_type \<Rightarrow> int \<Rightarrow> int \<Rightarrow> int \<Rightarrow> fault + int" where
  "modMul T a b module = rbind (c_mul T a b) (\<lambda>p. c_mod T p module)"

text \<open>
  \<^verbatim>\<open>for (f = 1; exp; exp >>= 1, c = modMul(c, c, module))
     if (!isEven(exp)) f = modMul(f, c, module);\<close>
  The loop variable \<^verbatim>\<open>exp\<close> starts as \<^verbatim>\<open>abs(n)\<close>, which is never negative, and is
  only tested, shifted right and tested for parity: it is carried as a natural
  number. The squaring of \<^verbatim>\<open>c\<close> runs after every round, the last one included.
\<close>

function modPow_loop :: "int_type \<Rightarrow> int \<Rightarrow> int \<Rightarrow> nat \<Rightarrow> int \<Rightarrow> fault + int" where
  "modPow_loop T module f exp c =
     (if exp = 0 then Inr f
      else case (if \<not> isEven (int exp) then modMul T f c module else Inr f) of
             Inl e \<Rightarrow> Inl e
           | Inr f' \<Rightarrow>
               (case modMul T c c module of
                  Inl e \<Rightarrow> Inl e
                | Inr c' \<Rightarrow> modPow_loop T module f' (drop_bit 1 exp) c'))"
  by pat_completeness auto
termination
  by (relation "measure (\<lambda>(T, module, f, exp, c). exp)") (auto simp: drop_bit_Suc)

declare modPow_loop.simps [simp del]

text \<open>The reduced base, \<^verbatim>\<open>int_type c = a % module;\<close>\<close>

definition modPow_reduce :: "int_type \<Rightarrow> int \<Rightarrow> int \<Rightarrow> fault + int" where
  "modPow_reduce T a module = c_mod T a module"

definition modPow :: "int_type \<Rightarrow> int \<Rightarrow> int \<Rightarrow> int \<Rightarrow> fault + int" where
  "modPow T a n module =
     (if n = 0 then Inr 1
      else
        rbind (modPow_reduce T a module) (\<lambda>c.
        rbind (if n < 0 then invMul T c module else Inr c) (\<lambda>c'.
        rbind (abs_cpp T n) (\<lambda>exp.
        modPow_loop T module 1 (nat exp) c'))))"

section \<open>Notions used in the statements and proofs\<close>

text \<open>
  The part of \<^verbatim>\<open>invMul\<close> after its loop, as it behaves on a remainder \<open>a\<close> and a
  coefficient \<open>y\<close> that fit \<^verbatim>\<open>int\<close> when \<open>\<bar>valA\<bar>\<close> does too: there the sum
  \<^verbatim>\<open>y += abs(valA)\<close> is the exact one (\<open>invMul_unfold\<close> below proves this of the
  definition above).
\<close>

definition invMul_finish :: "int_type \<Rightarrow> int \<Rightarrow> int \<Rightarrow> int \<times> int \<Rightarrow> fault + int" where
  "invMul_finish T valB valA r =
     (case r of (a, y) \<Rightarrow>
        if a \<noteq> 1 then Inr 0
        else rbind (if valB < 0 then c_neg T_int (if y < 0 then y + \<bar>valA\<bar> else y)
                    else Inr (if y < 0 then y + \<bar>valA\<bar> else y))
               (\<lambda>y''. Inr (convert T y'')))"


text \<open>
  What holds before and after every round of the loop of \<^verbatim>\<open>invMul\<close> started on
  \<open>(a0, b0, 0, 1)\<close> with \<open>0 \<le> a0, b0 \<le> INT_MAX\<close>: the remainders stay in range, the
  two coefficients have opposite signs, \<open>\<bar>y1\<bar> * a + \<bar>y\<bar> * b\<close> stays \<open>a0\<close> (which
  bounds every product the round forms), \<open>a\<close> and \<open>b\<close> are \<open>y * b0\<close> and \<open>y1 * b0\<close>
  modulo \<open>a0\<close>, and the greatest common divisor is kept.
\<close>

definition bezout_inv :: "int \<Rightarrow> int \<Rightarrow> int \<Rightarrow> int \<Rightarrow> int \<Rightarrow> int \<Rightarrow> bool" where
  "bezout_inv a0 b0 a b y y1 \<longleftrightarrow>
     0 \<le> a \<and> a \<le> max_val T_int \<and> 0 \<le> b \<and> b \<le> max_val T_int \<and> a0 \<le> max_val T_int \<and>
     \<bar>y\<bar> \<le> max_val T_int \<and> \<bar>y1\<bar> \<le> max_val T_int \<and>
     y * y1 \<le> 0 \<and>
     \<bar>y1\<bar> * a + \<bar>y\<bar> * b = a0 \<and>
     a0 dvd (y * b0 - a) \<and> a0 dvd (y1 * b0 - b) \<and>
     gcd a b = gcd a0 b0 \<and>
     (b < a \<or> (y = 0 \<and> y1 = 1)) \<and>
     (b = 0 \<longrightarrow> 2 * \<bar>y\<bar> \<le> \<bar>y1\<bar> \<or> \<bar>y\<bar> \<le> 1)"

text \<open>Values the loop of \<^verbatim>\<open>modPow\<close> can multiply without leaving the type.\<close>

definition residue :: "int_type \<Rightarrow> int \<Rightarrow> int \<Rightarrow> bool" where
  "residue T m x \<longleftrightarrow> \<bar>x\<bar> < m \<and> (\<not> is_signed T \<longrightarrow> 0 \<le> x)"

text \<open>
  The claims about RSA speak of prime numbers; the source has only a table of
  them. Primality is the mathematical notion, written so that it can be
  evaluated: no number from 2 up to \<open>p - 1\<close> divides \<open>p\<close>.
\<close>

definition is_prime :: "nat \<Rightarrow> bool" where
  "is_prime p \<longleftrightarrow> 1 < p \<and> (\<forall>m\<in>{2..<p}. \<not> m dvd p)"

section \<open>Arithmetic that stays in range\<close>

lemma max_val_ge_int: "max_val T_int \<le> max_val T"
  by (cases T) (simp_all add: max_val_def)

lemma max_val_int: "max_val T_int = 2147483647"
  by (simp add: max_val_def)

lemma min_val_int: "min_val T_int = - 2147483648"
  by (simp add: min_val_def)

lemma min_val_le_0: "min_val T \<le> 0"
  by (cases T) (simp_all add: min_val_def)

lemma max_val_pos: "0 < max_val T"
  by (cases T) (simp_all add: max_val_def)

lemma min_val_signed: "is_signed T \<Longrightarrow> min_val T = - max_val T - 1"
  by (cases T) (simp_all add: min_val_def max_val_def)

lemma min_val_unsigned: "\<not> is_signed T \<Longrightarrow> min_val T = 0"
  by (simp add: min_val_def)

lemma max_val_unsigned: "\<not> is_signed T \<Longrightarrow> max_val T = 2 ^ width T - 1"
  by (simp add: max_val_def)

lemma in_range_nonneg: "0 \<le> x \<Longrightarrow> x \<le> max_val T \<Longrightarrow> in_range T x"
  using min_val_le_0 [of T] by (simp add: in_range_def)

lemma arith_in_range: "in_range T x \<Longrightarrow> arith T x = Inr x"
  by (auto simp: arith_def in_range_def min_val_unsigned max_val_unsigned)

lemma sdiv_nonneg_eq: "0 \<le> a \<Longrightarrow> 0 \<le> b \<Longrightarrow> a sdiv b = a div b" for a b :: int
  by (simp add: signed_divide_int_def sgn_if)

lemma smod_nonneg_eq: "0 \<le> a \<Longrightarrow> 0 \<le> b \<Longrightarrow> a smod b = a mod b" for a b :: int
  by (simp add: signed_modulo_int_def sgn_if)

lemma sdiv_in_range:
  assumes r: "in_range T a" and b: "0 < b"
  shows "in_range T (a sdiv b)"
proof -
  have le: "\<bar>a\<bar> div b \<le> \<bar>a\<bar>"
    using int_div_le_self [of "\<bar>a\<bar>" b] by (cases "a = 0") auto
  have ge: "0 \<le> \<bar>a\<bar> div b"
    using b by (simp add: pos_imp_zdiv_nonneg_iff)
  show ?thesis
    using r b le ge min_val_le_0 [of T] max_val_pos [of T]
    by (cases "a < 0") (auto simp: signed_divide_int_def sgn_if in_range_def)
qed

lemma c_mod_pos: "in_range T a \<Longrightarrow> 0 < b \<Longrightarrow> c_mod T a b = Inr (a smod b)"
  by (simp add: c_mod_def arith_in_range sdiv_in_range)

lemma c_div_pos: "in_range T a \<Longrightarrow> 0 < b \<Longrightarrow> c_div T a b = Inr (a sdiv b)"
  by (simp add: c_div_def arith_in_range sdiv_in_range)

lemma abs_cpp_eq:
  "in_range T x \<Longrightarrow> (is_signed T \<longrightarrow> x \<noteq> min_val T) \<Longrightarrow> abs_cpp T x = Inr \<bar>x\<bar>"
  by (cases T) (auto simp: abs_cpp_def c_sub_def arith_def in_range_def min_val_def max_val_def)


lemma isEven_iff: "isEven a \<longleftrightarrow> even a"
  by (simp add: isEven_def and_one_eq mod_2_eq_odd)

lemma modMul_eq:
  "in_range T (a * b) \<Longrightarrow> 0 < m \<Longrightarrow> modMul T a b m = Inr ((a * b) smod m)"
  by (simp add: modMul_def c_mul_def arith_in_range c_mod_pos)

lemma modPow_loop_0: "modPow_loop T m f 0 c = Inr f"
  by (subst modPow_loop.simps) simp

lemma modPow_loop_unfold:
  assumes "exp \<noteq> 0" "in_range T (f * c)" "in_range T (c * c)" "0 < m"
  shows "modPow_loop T m f exp c =
           modPow_loop T m (if odd exp then (f * c) smod m else f) (exp div 2) ((c * c) smod m)"
  using assms by (subst modPow_loop.simps) (simp add: isEven_iff modMul_eq drop_bit_Suc)

section \<open>The worked example of the specification\<close>

lemma worked_inv: "invMul T 17 3120 = Inr 2753"
proof -
  have "invMul T_int 17 3120 = Inr 2753" "invMul T_unsigned 17 3120 = Inr 2753"
    "invMul T_long_long 17 3120 = Inr 2753" "invMul T_unsigned_long_long 17 3120 = Inr 2753"
    by code_simp+
  then show ?thesis
    by (cases T) simp_all
qed

lemma worked_enc: "modPow T 65 17 3233 = Inr 2790"
  by (cases T; simp add: modPow_def modPow_reduce_def c_mod_def arith_def abs_cpp_def
        modPow_loop_unfold modPow_loop_0 in_range_def min_val_def max_val_def
        signed_modulo_int_def signed_divide_int_def)

lemma worked_dec: "modPow T 2790 2753 3233 = Inr 65"
  by (cases T; simp add: modPow_def modPow_reduce_def c_mod_def arith_def abs_cpp_def
        modPow_loop_unfold modPow_loop_0 in_range_def min_val_def max_val_def
        signed_modulo_int_def signed_divide_int_def)

text \<open>
  Claim C2. For \<open>P = 61\<close> and \<open>Q = 53\<close> the driver computes \<open>N = 3233\<close> and
  \<open>Phi = 3120\<close>; \<^verbatim>\<open>invMul(17, 3120)\<close> returns 2753, \<^verbatim>\<open>modPow(65, 17, 3233)\<close> returns
  2790 and \<^verbatim>\<open>modPow(2790, 2753, 3233)\<close> returns 65, at every integer type of the
  embedding and without a fault.
\<close>

theorem rsa_worked_example:
  "c_mul T 61 53 = Inr 3233 \<and> c_mul T (61 - 1) (53 - 1) = Inr 3120 \<and>
   invMul T 17 3120 = Inr 2753 \<and>
   modPow T 65 17 3233 = Inr 2790 \<and>
   modPow T 2790 2753 3233 = Inr 65"
proof -
  have keys: "c_mul T 61 53 = Inr 3233" "c_mul T (61 - 1) (53 - 1) = Inr 3120"
    by (cases T; simp add: c_mul_def arith_def in_range_def min_val_def max_val_def)+
  from keys worked_inv worked_enc worked_dec show ?thesis
    by simp
qed

section \<open>The GCD engine computes the greatest common divisor\<close>








section \<open>A zero modulus\<close>

text \<open>
  Claim C6. With modulus 0, \<^verbatim>\<open>modPow\<close> faults with a division by zero at the
  reduction of the base for every base and every exponent other than 0; for the
  exponent 0 it has returned 1 before anything is divided. \<^verbatim>\<open>modMul\<close> with modulus
  0 divides by zero whenever its product is formed without overflow.
\<close>

theorem modPow_zero_modulus:
  "modPow T a n 0 = (if n = 0 then Inr 1 else Inl DivisionByZero) \<and>
   (in_range T (a * b) \<longrightarrow> modMul T a b 0 = Inl DivisionByZero)"
  by (simp add: modPow_def modPow_reduce_def c_mod_def modMul_def c_mul_def arith_in_range)

theorem modPow_zero_modulus_witness:
  "modPow T_unsigned 5 3 0 = Inl DivisionByZero \<and> in_range T_unsigned (5 * 7) \<and>
   modMul T_unsigned 5 7 0 = Inl DivisionByZero"
proof -
  have r: "in_range T_unsigned (5 * 7)"
    by (simp add: in_range_def min_val_def max_val_def)
  with modPow_zero_modulus [of T_unsigned 5 3 7] show ?thesis
    by simp
qed

text \<open>The exponent 0 returns normally although the modulus is 0.\<close>

theorem modPow_zero_modulus_counterexample:
  "modPow T_unsigned 5 0 0 = Inr 1"
  by (simp add: modPow_def)

section \<open>The reduced base\<close>

text \<open>
  Claim C7. For a modulus greater than 0 the reduced base of \<^verbatim>\<open>modPow\<close> is the
  truncating remainder of the base: it lies strictly between \<open>- modulus\<close> and
  \<open>modulus\<close> and has the sign of the base, so it lies in \<open>[0, modulus)\<close> for every
  non-negative base and in \<open>(- modulus, 0]\<close> for every negative one.
\<close>

theorem modPow_reduce_range:
  assumes "in_range T base" "0 < modulus"
  shows "modPow_reduce T base modulus = Inr (base smod modulus) \<and>
         - modulus < base smod modulus \<and> base smod modulus < modulus \<and>
         (0 \<le> base \<longrightarrow> 0 \<le> base smod modulus) \<and>
         (base < 0 \<longrightarrow> base smod modulus \<le> 0)"
proof -
  have "\<bar>base smod modulus\<bar> < \<bar>modulus\<bar>"
    using assms by (intro abs_smod_less) simp
  moreover have "0 \<le> base \<longrightarrow> 0 \<le> base smod modulus" "base < 0 \<longrightarrow> base smod modulus \<le> 0"
    using assms by (auto simp: signed_modulo_int_def sgn_if)
  ultimately show ?thesis
    using assms by (auto simp: modPow_reduce_def c_mod_pos)
qed

theorem modPow_reduce_range_witness:
  "in_range T_int (- 9) \<and> modPow_reduce T_int (- 9) 7 = Inr (- 2) \<and>
   in_range T_unsigned 9 \<and> modPow_reduce T_unsigned 9 7 = Inr 2"
proof -
  have r: "in_range T_int (- 9)" "in_range T_unsigned 9" "(0::int) < 7"
    by (simp_all add: in_range_def min_val_def max_val_def)
  from modPow_reduce_range [OF r(1) r(3)] modPow_reduce_range [OF r(2) r(3)] r show ?thesis
    by (simp add: signed_modulo_int_def)
qed

text \<open>A negative base keeps its sign, and \<^verbatim>\<open>modPow\<close> returns such a value.\<close>

theorem modPow_reduce_counterexample:
  "modPow_reduce T_int (- 2) 7 = Inr (- 2) \<and> modPow T_int (- 2) 1 7 = Inr (- 2)"
  by (simp add: modPow_def modPow_reduce_def c_mod_def arith_def abs_cpp_def modPow_loop_unfold
      modPow_loop_0 in_range_def min_val_def max_val_def signed_modulo_int_def
      signed_divide_int_def)

section \<open>The loop of the modular inverse engine\<close>

lemma abs_coeff_step:
  fixes y y1 q :: int
  assumes "y * y1 \<le> 0" "0 \<le> q"
  shows "\<bar>y - y1 * q\<bar> = \<bar>y\<bar> + \<bar>y1\<bar> * q"
proof -
  consider "y1 = 0" | "0 < y1" "y \<le> 0" | "y1 < 0" "0 \<le> y"
    using assms(1) by (cases "y1 = 0"; cases "0 < y1") (auto simp: mult_le_0_iff)
  then show ?thesis
  proof cases
    case 1
    then show ?thesis by simp
  next
    case 2
    with assms(2) have "0 \<le> y1 * q" by simp
    with 2 show ?thesis by simp
  next
    case 3
    with assms(2) have "y1 * q \<le> 0" by (simp add: mult_le_0_iff)
    with 3 show ?thesis by simp
  qed
qed

lemma in_range_int_abs: "\<bar>x\<bar> \<le> max_val T_int \<Longrightarrow> in_range T_int x"
  by (auto simp: in_range_def min_val_def max_val_def)

lemma bezout_step:
  assumes inv: "bezout_inv a0 b0 a b y y1" and nz: "b \<noteq> 0"
  shows "invMul_step a b y y1 = Inr (b, a mod b, y1, y - y1 * (a div b))"
    and "bezout_inv a0 b0 b (a mod b) y1 (y - y1 * (a div b))"
proof -
  define q where "q = a div b"
  define r where "r = a mod b"
  from inv nz have b: "0 < b" and a: "0 \<le> a"
    by (auto simp: bezout_inv_def)
  have q: "0 \<le> q" and r: "0 \<le> r" "r < b" and decomp: "a = q * b + r"
    using a b by (simp_all add: q_def r_def pos_imp_zdiv_nonneg_iff)
  from inv have sgn: "y * y1 \<le> 0" and sum: "\<bar>y1\<bar> * a + \<bar>y\<bar> * b = a0"
    by (auto simp: bezout_inv_def)
  have new_abs: "\<bar>y - y1 * q\<bar> = \<bar>y\<bar> + \<bar>y1\<bar> * q"
    using sgn q by (rule abs_coeff_step)
  have sum': "\<bar>y - y1 * q\<bar> * b + \<bar>y1\<bar> * r = a0"
    unfolding new_abs using sum decomp by (simp add: algebra_simps)
  have "0 \<le> \<bar>y1\<bar> * r"
    using r by simp
  with sum' have "\<bar>y - y1 * q\<bar> * b \<le> a0"
    by linarith
  moreover have "\<bar>y - y1 * q\<bar> * 1 \<le> \<bar>y - y1 * q\<bar> * b"
    using b by (intro mult_left_mono) auto
  ultimately have bound: "\<bar>y - y1 * q\<bar> \<le> a0"
    by simp
  have "\<bar>y1 * q\<bar> \<le> \<bar>y - y1 * q\<bar>"
    unfolding new_abs using q by (simp add: abs_mult)
  with bound have bound_mul: "\<bar>y1 * q\<bar> \<le> a0"
    by simp
  from inv have a0: "a0 \<le> max_val T_int" and ar: "in_range T_int a"
    by (auto simp: bezout_inv_def intro: in_range_nonneg)
  have "c_div T_int a b = Inr q" "c_mod T_int a b = Inr r"
    using ar a b by (simp_all add: c_div_pos c_mod_pos sdiv_nonneg_eq smod_nonneg_eq q_def r_def)
  moreover have "c_mul T_int y1 q = Inr (y1 * q)"
    using bound_mul a0 by (simp add: c_mul_def arith_in_range in_range_int_abs)
  moreover have "c_sub T_int y (y1 * q) = Inr (y - y1 * q)"
    using bound a0 by (simp add: c_sub_def arith_in_range in_range_int_abs)
  ultimately show "invMul_step a b y y1 = Inr (b, a mod b, y1, y - y1 * (a div b))"
    by (simp add: invMul_step_def q_def r_def)
  have dv: "a0 dvd (y - y1 * q) * b0 - r"
  proof -
    from inv have d1: "a0 dvd (y * b0 - a)" and d2: "a0 dvd (y1 * b0 - b)"
      by (auto simp: bezout_inv_def)
    from d2 have "a0 dvd q * (y1 * b0 - b)"
      by (rule dvd_mult)
    with d1 have "a0 dvd (y * b0 - a) - q * (y1 * b0 - b)"
      by (rule dvd_diff)
    moreover have "(y * b0 - a) - q * (y1 * b0 - b) = (y - y1 * q) * b0 - r"
      using decomp by (simp add: algebra_simps)
    ultimately show ?thesis by simp
  qed
  have g: "gcd b r = gcd a0 b0"
    using inv by (simp add: r_def bezout_inv_def gcd_red_int [symmetric])
  have sgn': "y1 * (y - y1 * q) \<le> 0"
  proof -
    have "y1 * (y - y1 * q) = y * y1 - (y1 * y1) * q"
      by (simp add: algebra_simps)
    moreover have "0 \<le> (y1 * y1) * q"
      using q by simp
    ultimately show ?thesis
      using sgn by linarith
  qed
  have last: "r = 0 \<longrightarrow> 2 * \<bar>y1\<bar> \<le> \<bar>y - y1 * q\<bar> \<or> \<bar>y1\<bar> \<le> 1"
  proof
    assume r0: "r = 0"
    from inv consider "b < a" | "y = 0" "y1 = 1"
      by (auto simp: bezout_inv_def)
    then show "2 * \<bar>y1\<bar> \<le> \<bar>y - y1 * q\<bar> \<or> \<bar>y1\<bar> \<le> 1"
    proof cases
      case 1
      have "2 \<le> q"
      proof (rule ccontr)
        assume "\<not> 2 \<le> q"
        with q have "q = 0 \<or> q = 1" by auto
        with decomp r0 1 b show False by auto
      qed
      then have "\<bar>y1\<bar> * 2 \<le> \<bar>y1\<bar> * q"
        by (intro mult_left_mono) auto
      then have "2 * \<bar>y1\<bar> \<le> \<bar>y\<bar> + \<bar>y1\<bar> * q"
        by linarith
      then show ?thesis
        unfolding new_abs ..
    next
      case 2
      then show ?thesis by simp
    qed
  qed
  from inv have "b \<le> max_val T_int" "\<bar>y1\<bar> \<le> max_val T_int"
    by (auto simp: bezout_inv_def)
  with b r a0 bound sum' dv g sgn' last inv
  show "bezout_inv a0 b0 b (a mod b) y1 (y - y1 * (a div b))"
    unfolding bezout_inv_def q_def [symmetric] r_def [symmetric]
    by (simp add: mult.commute)
qed

lemma bezout_loop:
  assumes "bezout_inv a0 b0 a b y y1"
  shows "\<exists>a' y' y1'. invMul_loop a b y y1 = Inr (a', y') \<and> bezout_inv a0 b0 a' 0 y' y1'"
  using assms
proof (induction "nat b" arbitrary: a b y y1 rule: less_induct)
  case less
  show ?case
  proof (cases "b = 0")
    case True
    with less.prems show ?thesis
      by (subst invMul_loop.simps) auto
  next
    case False
    note step = bezout_step [OF less.prems False]
    from less.prems False have "0 < b"
      by (auto simp: bezout_inv_def)
    then have "nat (a mod b) < nat b"
      by (simp add: nat_less_iff)
    from less.hyps [OF this step(2)] step(1) False show ?thesis
      by (subst invMul_loop.simps) simp
  qed
qed

lemma bezout_init:
  assumes "0 \<le> a0" "a0 \<le> max_val T_int" "0 \<le> b0" "b0 \<le> max_val T_int"
  shows "bezout_inv a0 b0 a0 b0 0 1"
  using assms max_val_pos [of T_int] by (simp add: bezout_inv_def)


section \<open>Conversions between the integer type and int\<close>

lemma convert_id: "in_range T x \<Longrightarrow> convert T x = x"
  by (cases T) (auto simp: convert_def in_range_def min_val_def max_val_def)

lemma in_range_int_signed: "in_range T_int x \<Longrightarrow> is_signed T \<Longrightarrow> in_range T x"
  by (cases T) (auto simp: in_range_def min_val_def max_val_def)

lemma convert_int_cong:
  "x mod 4294967296 = x' mod 4294967296 \<Longrightarrow> convert T_int x = convert T_int x'"
  by (simp add: convert_def) (metis mod_add_left_eq)

lemma mod_width_mod_int: "x mod 2 ^ width T mod 4294967296 = x mod 4294967296" for x :: int
  by (cases T) (simp_all add: mod_mod_cancel)

lemma add_back:
  assumes "in_range T_int y" "y < 0" "0 \<le> a0" "a0 \<le> max_val T_int"
  shows "rbind (c_add T (convert T y) a0) (\<lambda>s. Inr (convert T_int s)) = Inr (y + a0)"
proof -
  have sum: "in_range T_int (y + a0)"
    using assms by (auto simp: in_range_def)
  show ?thesis
  proof (cases "is_signed T")
    case True
    with assms sum have "convert T y = y" "in_range T (y + a0)"
      by (simp_all add: in_range_int_signed convert_id)
    with sum True show ?thesis
      by (simp add: c_add_def arith_in_range convert_id)
  next
    case False
    have "(y mod 2 ^ width T + a0) mod 2 ^ width T mod 4294967296 = (y + a0) mod 4294967296"
      by (simp add: mod_width_mod_int) (metis mod_add_left_eq mod_width_mod_int)
    then have "convert T_int ((y mod 2 ^ width T + a0) mod 2 ^ width T) = convert T_int (y + a0)"
      by (rule convert_int_cong)
    with False sum show ?thesis
      by (simp add: c_add_def arith_def convert_def [of T] convert_id)
  qed
qed

lemma invMul_step_range:
  assumes "invMul_step a b y y1 = Inr (a', b', y', y1')"
    "in_range T_int b" "in_range T_int y1"
  shows "in_range T_int a' \<and> in_range T_int b' \<and> in_range T_int y' \<and> in_range T_int y1'"
proof -
  from assms(1) obtain q t p where
    "c_mod T_int a b = Inr t" "c_sub T_int y p = Inr y1'" "a' = b" "b' = t" "y' = y1"
    by (auto simp: invMul_step_def rbind_Inr_iff)
  moreover from this have "b \<noteq> 0" "t = a smod b"
    by (auto dest: c_mod_Inr)
  moreover from this assms(2) have "in_range T_int t"
    using abs_smod_less [of b a] by (auto simp: in_range_def min_val_def max_val_def)
  moreover from \<open>c_sub T_int y p = Inr y1'\<close> have "in_range T_int y1'"
    by (auto simp: c_sub_def arith_def split: if_splits)
  ultimately show ?thesis
    using assms by simp
qed

lemma invMul_loop_range:
  assumes "invMul_loop a b y y1 = Inr (a', y')"
    "in_range T_int a" "in_range T_int b" "in_range T_int y" "in_range T_int y1"
  shows "in_range T_int a' \<and> in_range T_int y'"
  using assms
proof (induction a b y y1 rule: invMul_loop.induct)
  case (1 a b y y1)
  show ?case
  proof (cases "b = 0")
    case True
    with "1.prems" show ?thesis
      by (subst (asm) invMul_loop.simps) simp
  next
    case False
    with "1.prems"(1) obtain a2 b2 y2 y12 where
      step: "invMul_step a b y y1 = Inr (a2, b2, y2, y12)" and
      rest: "invMul_loop a2 b2 y2 y12 = Inr (a', y')"
      by (subst (asm) invMul_loop.simps) (auto split: sum.splits)
    from invMul_step_range [OF step] "1.prems" have
      "in_range T_int a2" "in_range T_int b2" "in_range T_int y2" "in_range T_int y12"
      by simp_all
    with "1.IH" [OF False step refl refl refl rest] show ?thesis
      by simp
  qed
qed

section \<open>The modular inverse engine on values that fit int\<close>

lemma abs_cpp_small:
  assumes "in_range T x" "\<bar>x\<bar> \<le> max_val T_int"
  shows "abs_cpp T x = Inr \<bar>x\<bar>"
proof -
  have "is_signed T \<longrightarrow> x \<noteq> min_val T"
    using assms(2) max_val_ge_int [of T] by (auto simp: min_val_signed)
  with assms(1) show ?thesis
    by (rule abs_cpp_eq)
qed

lemma convert_int_small: "\<bar>x\<bar> \<le> max_val T_int \<Longrightarrow> convert T_int x = x"
  by (simp add: convert_id in_range_int_abs)

lemma invMul_unfold:
  assumes "in_range T valA" "in_range T valB"
    "\<bar>valA\<bar> \<le> max_val T_int" "\<bar>valB\<bar> \<le> max_val T_int"
  shows "invMul T valB valA =
           rbind (invMul_loop \<bar>valA\<bar> \<bar>valB\<bar> 0 1) (invMul_finish T valB valA)"
proof -
  have abs: "abs_cpp T valA = Inr \<bar>valA\<bar>" "abs_cpp T valB = Inr \<bar>valB\<bar>"
    using assms by (simp_all add: abs_cpp_small)
  have conv: "convert T_int \<bar>valA\<bar> = \<bar>valA\<bar>" "convert T_int \<bar>valB\<bar> = \<bar>valB\<bar>"
    using assms by (simp_all add: convert_int_small)
  show ?thesis
  proof (cases "invMul_loop \<bar>valA\<bar> \<bar>valB\<bar> 0 1")
    case (Inl e)
    with abs conv show ?thesis
      by (simp add: invMul_def)
  next
    case (Inr r)
    obtain a y where r: "r = (a, y)"
      by (cases r)
    have "in_range T_int y"
      using invMul_loop_range [of "\<bar>valA\<bar>" "\<bar>valB\<bar>" 0 1 a y] Inr r assms
      by (simp add: in_range_int_abs) (simp add: in_range_def min_val_def max_val_def)
    then have "y < 0 \<Longrightarrow>
        rbind (c_add T (convert T y) \<bar>valA\<bar>) (\<lambda>s. Inr (convert T_int s)) = Inr (y + \<bar>valA\<bar>)"
      using assms by (intro add_back) auto
    with abs conv Inr r show ?thesis
      by (simp add: invMul_def invMul_finish_def)
  qed
qed

lemma invMul_loop_gcd:
  assumes "0 \<le> a0" "a0 \<le> max_val T_int" "0 \<le> b0" "b0 \<le> max_val T_int"
  shows "\<exists>y. invMul_loop a0 b0 0 1 = Inr (gcd a0 b0, y) \<and> \<bar>y\<bar> \<le> max_val T_int \<and>
             a0 dvd (y * b0 - gcd a0 b0) \<and>
             (gcd a0 b0 = 1 \<longrightarrow> 2 * \<bar>y\<bar> \<le> a0 \<or> \<bar>y\<bar> \<le> 1)"
proof -
  from bezout_loop [OF bezout_init [OF assms]] obtain a' y' y1' where
    loop: "invMul_loop a0 b0 0 1 = Inr (a', y')" and inv: "bezout_inv a0 b0 a' 0 y' y1'"
    by blast
  from inv have a': "a' = gcd a0 b0"
    by (auto simp: bezout_inv_def)
  from inv have "\<bar>y1'\<bar> * a' = a0" "2 * \<bar>y'\<bar> \<le> \<bar>y1'\<bar> \<or> \<bar>y'\<bar> \<le> 1"
    by (auto simp: bezout_inv_def)
  then have "a' = 1 \<longrightarrow> 2 * \<bar>y'\<bar> \<le> a0 \<or> \<bar>y'\<bar> \<le> 1"
    by auto
  with loop inv a' show ?thesis
    by (auto simp: bezout_inv_def)
qed

lemma coeff_normal:
  fixes a0 b0 y :: int
  assumes "2 \<le> a0" "a0 dvd (y * b0 - 1)" "2 * \<bar>y\<bar> \<le> a0 \<or> \<bar>y\<bar> \<le> 1"
  defines "n \<equiv> (if y < 0 then y + a0 else y)"
  shows "0 \<le> n" "n < a0" "(n * b0) mod a0 = 1"
proof -
  show "0 \<le> n" "n < a0"
    using assms(1,3) by (auto simp: n_def)
  have "(n * b0) mod a0 = (y * b0) mod a0"
    by (simp add: n_def algebra_simps)
  also have "\<dots> = 1 mod a0"
    using assms(2) by (simp add: mod_eq_dvd_iff)
  also have "\<dots> = 1"
    using assms(1) by simp
  finally show "(n * b0) mod a0 = 1" .
qed

lemma invMul_loop_0_1: "invMul_loop 0 1 0 1 = Inr (1, 1)"
  by code_simp

lemma invMul_finish_coprime:
  assumes "in_range T valB" "0 \<le> n" "n \<le> max_val T_int"
    "n = (if y < 0 then y + \<bar>valA\<bar> else y)"
  shows "invMul_finish T valB valA (1, y) = Inr (if valB < 0 then - n else n)"
proof -
  have neg: "c_neg T_int n = Inr (- n)"
    using assms(2,3) by (simp add: c_neg_def arith_in_range in_range_int_abs)
  have conv: "convert T (if valB < 0 then - n else n) = (if valB < 0 then - n else n)"
  proof (cases "is_signed T")
    case True
    have "in_range T_int (if valB < 0 then - n else n)"
      using assms(2,3) by (intro in_range_int_abs) auto
    then have "in_range T (if valB < 0 then - n else n)"
      using True by (rule in_range_int_signed)
    then show ?thesis
      by (rule convert_id)
  next
    case False
    with assms(1) have "0 \<le> valB"
      by (simp add: in_range_def min_val_unsigned)
    with assms(2,3) max_val_ge_int [of T] show ?thesis
      by (simp add: convert_id in_range_nonneg)
  qed
  have fin_eq: "(if y < 0 then y + \<bar>valA\<bar> else y) = n"
    using assms(4) by simp
  have "invMul_finish T valB valA (1, y) =
      rbind (if valB < 0 then c_neg T_int n else Inr n) (\<lambda>y''. Inr (convert T y''))"
    unfolding invMul_finish_def prod.case fin_eq by simp
  also have "\<dots> = Inr (if valB < 0 then - n else n)"
    using neg conv by (cases "valB < 0") simp_all
  finally show ?thesis .
qed

lemma invMul_finish_not_coprime: "a \<noteq> 1 \<Longrightarrow> invMul_finish T valB valA (a, y) = Inr 0"
  by (simp add: invMul_finish_def)

lemma coeff_props:
  fixes a0 b0 y :: int
  assumes rng: "0 \<le> a0" "a0 \<le> max_val T_int" "0 \<le> b0"
    and one: "gcd a0 b0 = 1"
    and loop: "invMul_loop a0 b0 0 1 = Inr (1, y)"
    and dv: "a0 dvd (y * b0 - 1)"
    and small: "2 * \<bar>y\<bar> \<le> a0 \<or> \<bar>y\<bar> \<le> 1"
    and n: "n = (if y < 0 then y + a0 else y)"
  shows "0 \<le> n" "n \<le> max_val T_int" "2 \<le> a0 \<Longrightarrow> n < a0 \<and> (n * b0) mod a0 = 1"
    "a0 = 0 \<Longrightarrow> n = 1" "a0 = 1 \<Longrightarrow> n \<le> 1"
proof -
  consider "a0 = 0" | "a0 = 1" | "2 \<le> a0"
    using rng(1) by linarith
  then have "0 \<le> n \<and> n \<le> max_val T_int \<and> (2 \<le> a0 \<longrightarrow> n < a0 \<and> (n * b0) mod a0 = 1) \<and>
      (a0 = 0 \<longrightarrow> n = 1) \<and> (a0 = 1 \<longrightarrow> n \<le> 1)"
  proof cases
    case 1
    with one rng have "b0 = 1"
      by simp
    with 1 loop have "y = 1"
      by (simp add: invMul_loop_0_1)
    with 1 n max_val_pos [of T_int] show ?thesis
      by simp
  next
    case 2
    with small have "\<bar>y\<bar> \<le> 1"
      by linarith
    then have "y = - 1 \<or> y = 0 \<or> y = 1"
      by linarith
    with 2 n max_val_pos [of T_int] show ?thesis
      by auto
  next
    case 3
    from coeff_normal [OF 3 dv small] have "0 \<le> n" "n < a0" "(n * b0) mod a0 = 1"
      unfolding n by simp_all
    with 3 rng show ?thesis
      by simp
  qed
  then show "0 \<le> n" "n \<le> max_val T_int" "2 \<le> a0 \<Longrightarrow> n < a0 \<and> (n * b0) mod a0 = 1"
    "a0 = 0 \<Longrightarrow> n = 1" "a0 = 1 \<Longrightarrow> n \<le> 1"
    by simp_all
qed

lemma invMul_char:
  assumes "in_range T valA" "in_range T valB"
    "\<bar>valA\<bar> \<le> max_val T_int" "\<bar>valB\<bar> \<le> max_val T_int"
  shows "\<exists>y n. invMul_loop \<bar>valA\<bar> \<bar>valB\<bar> 0 1 = Inr (gcd valA valB, y) \<and>
           n = (if y < 0 then y + \<bar>valA\<bar> else y) \<and>
           invMul T valB valA =
             Inr (if gcd valA valB \<noteq> 1 then 0 else if valB < 0 then - n else n) \<and>
           (gcd valA valB = 1 \<longrightarrow>
              0 \<le> n \<and> (2 \<le> \<bar>valA\<bar> \<longrightarrow> n < \<bar>valA\<bar> \<and> (n * \<bar>valB\<bar>) mod \<bar>valA\<bar> = 1) \<and>
              (valA = 0 \<longrightarrow> n = 1) \<and> (\<bar>valA\<bar> = 1 \<longrightarrow> n \<le> 1))"
proof -
  let ?a0 = "\<bar>valA\<bar>" and ?b0 = "\<bar>valB\<bar>"
  have g: "gcd ?a0 ?b0 = gcd valA valB"
    by simp
  have rng: "0 \<le> ?a0" "?a0 \<le> max_val T_int" "0 \<le> ?b0" "?b0 \<le> max_val T_int"
    using assms by simp_all
  from invMul_loop_gcd [OF rng] obtain y where
    loop: "invMul_loop ?a0 ?b0 0 1 = Inr (gcd valA valB, y)" and
    dv: "?a0 dvd (y * ?b0 - gcd valA valB)" and
    small: "gcd valA valB = 1 \<longrightarrow> 2 * \<bar>y\<bar> \<le> ?a0 \<or> \<bar>y\<bar> \<le> 1"
    unfolding g by blast
  define n where "n = (if y < 0 then y + ?a0 else y)"
  have unfold: "invMul T valB valA = invMul_finish T valB valA (gcd valA valB, y)"
    using invMul_unfold [OF assms] loop by simp
  have res: "invMul T valB valA =
      Inr (if gcd valA valB \<noteq> 1 then 0 else if valB < 0 then - n else n)"
    and props: "gcd valA valB = 1 \<longrightarrow>
      0 \<le> n \<and> (2 \<le> ?a0 \<longrightarrow> n < ?a0 \<and> (n * ?b0) mod ?a0 = 1) \<and>
      (valA = 0 \<longrightarrow> n = 1) \<and> (?a0 = 1 \<longrightarrow> n \<le> 1)"
  proof -
    show "invMul T valB valA =
      Inr (if gcd valA valB \<noteq> 1 then 0 else if valB < 0 then - n else n)"
    proof (cases "gcd valA valB = 1")
      case False
      with unfold show ?thesis
        by (simp add: invMul_finish_not_coprime)
    next
      case True
      have one: "gcd ?a0 ?b0 = 1"
        using True by simp
      have loop1: "invMul_loop ?a0 ?b0 0 1 = Inr (1, y)"
        using loop True by simp
      have dv1: "?a0 dvd (y * ?b0 - 1)"
        using dv True by simp
      have small1: "2 * \<bar>y\<bar> \<le> ?a0 \<or> \<bar>y\<bar> \<le> 1"
        using small True by simp
      note p = coeff_props [OF rng(1,2,3) one loop1 dv1 small1 n_def]
      have "invMul_finish T valB valA (1, y) = Inr (if valB < 0 then - n else n)"
        using assms(2) p(1) p(2) n_def by (rule invMul_finish_coprime)
      with unfold True show ?thesis
        by simp
    qed
    show "gcd valA valB = 1 \<longrightarrow>
      0 \<le> n \<and> (2 \<le> ?a0 \<longrightarrow> n < ?a0 \<and> (n * ?b0) mod ?a0 = 1) \<and>
      (valA = 0 \<longrightarrow> n = 1) \<and> (?a0 = 1 \<longrightarrow> n \<le> 1)"
    proof
      assume True: "gcd valA valB = 1"
      have one: "gcd ?a0 ?b0 = 1"
        using True by simp
      have loop1: "invMul_loop ?a0 ?b0 0 1 = Inr (1, y)"
        using loop True by simp
      have dv1: "?a0 dvd (y * ?b0 - 1)"
        using dv True by simp
      have small1: "2 * \<bar>y\<bar> \<le> ?a0 \<or> \<bar>y\<bar> \<le> 1"
        using small True by simp
      note p = coeff_props [OF rng(1,2,3) one loop1 dv1 small1 n_def]
      have "valA = 0 \<longrightarrow> n = 1"
        using p(4) by simp
      with p(1,3,5) show "0 \<le> n \<and> (2 \<le> ?a0 \<longrightarrow> n < ?a0 \<and> (n * ?b0) mod ?a0 = 1) \<and>
          (valA = 0 \<longrightarrow> n = 1) \<and> (?a0 = 1 \<longrightarrow> n \<le> 1)"
        by (intro conjI impI) simp_all
    qed
  qed
  from loop n_def res props show ?thesis
    by (intro exI conjI)
qed

section \<open>Claims about the modular inverse\<close>




text \<open>
  Claim C4. When the loop of \<^verbatim>\<open>invMul\<close> ends with remainder 1 and coefficient \<open>y\<close>
  (on arguments whose absolute values fit \<^verbatim>\<open>int\<close>): if \<open>y\<close> is negative, \<open>\<bar>valA\<bar>\<close> is
  added and the sum lies in \<open>[0, \<bar>valA\<bar>)\<close>; and the result is negated exactly when
  the first argument \<open>valB\<close>, the value to invert, is negative. The sign of the
  modulus \<open>valA\<close> plays no part.
\<close>

theorem invMul_sign_rule:
  assumes "in_range T valA" "in_range T valB"
    "\<bar>valA\<bar> \<le> max_val T_int" "\<bar>valB\<bar> \<le> max_val T_int"
    and "invMul_loop \<bar>valA\<bar> \<bar>valB\<bar> 0 1 = Inr (1, y)"
  shows "(y < 0 \<longrightarrow> 0 \<le> y + \<bar>valA\<bar> \<and> y + \<bar>valA\<bar> < \<bar>valA\<bar>) \<and>
         invMul T valB valA =
           Inr (if valB < 0 then - (if y < 0 then y + \<bar>valA\<bar> else y)
                else (if y < 0 then y + \<bar>valA\<bar> else y))"
proof -
  from invMul_char [OF assms(1-4)] assms(5) obtain n where
    g: "gcd valA valB = 1" and n: "n = (if y < 0 then y + \<bar>valA\<bar> else y)" and
    res: "invMul T valB valA = Inr (if gcd valA valB \<noteq> 1 then 0 else if valB < 0 then - n else n)"
    and pos: "gcd valA valB = 1 \<longrightarrow> 0 \<le> n"
    by auto
  from g pos n have "y < 0 \<longrightarrow> 0 \<le> y + \<bar>valA\<bar> \<and> y + \<bar>valA\<bar> < \<bar>valA\<bar>"
    by auto
  with res g n show ?thesis
    by simp
qed

theorem invMul_sign_rule_witness:
  "in_range T_int 7 \<and> in_range T_int (- 3) \<and> invMul_loop \<bar>7\<bar> \<bar>- 3\<bar> 0 1 = Inr (1, - 2) \<and>
   invMul T_int (- 3) 7 = Inr (- 5)"
proof -
  have r: "in_range T_int 7" "in_range T_int (- 3)"
    "\<bar>7\<bar> \<le> max_val T_int" "\<bar>- 3\<bar> \<le> max_val T_int"
    by (simp_all add: in_range_def min_val_def max_val_def)
  have l: "invMul_loop \<bar>7\<bar> \<bar>- 3\<bar> 0 1 = Inr (1, - 2)"
    by code_simp
  from invMul_sign_rule [OF r l] r l show ?thesis
    by simp
qed

text \<open>
  A negative modulus leaves the result as it is, and a positive modulus does not
  keep it from being negated.
\<close>

theorem invMul_sign_rule_counterexample:
  "invMul T_int 3 (- 7) = Inr 5 \<and> invMul T_int (- 3) 7 = Inr (- 5)"
  by code_simp




section \<open>The modular inverse works at the width of int\<close>







section \<open>The loop of the modular exponentiation engine\<close>

lemma smod_pos_def: "0 < m \<Longrightarrow> x smod m = sgn x * (\<bar>x\<bar> mod m)" for x m :: int
  by (simp add: signed_modulo_int_def)

lemma abs_smod: "0 < m \<Longrightarrow> \<bar>x smod m\<bar> = \<bar>x\<bar> mod m" for x m :: int
  by (cases "x = 0") (simp_all add: smod_pos_def abs_mult)

lemma sgn_smod: "0 < m \<Longrightarrow> \<bar>x\<bar> mod m \<noteq> 0 \<Longrightarrow> sgn (x smod m) = sgn x" for x m :: int
proof -
  assume m: "0 < m" and nz: "\<bar>x\<bar> mod m \<noteq> 0"
  have "0 \<le> \<bar>x\<bar> mod m"
    using m by simp
  with nz have "0 < \<bar>x\<bar> mod m"
    by linarith
  then show ?thesis
    using m by (simp add: smod_pos_def sgn_mult)
qed

lemma smod_mult_left:
  fixes x y m :: int
  assumes m: "0 < m"
  shows "(x smod m * y) smod m = (x * y) smod m"
proof (cases "\<bar>x\<bar> mod m = 0")
  case True
  then have "x smod m = 0"
    using m by (simp add: smod_pos_def)
  moreover from True have "m dvd \<bar>x\<bar>"
    by (simp add: mod_eq_0_iff_dvd)
  then have "m dvd \<bar>x\<bar> * \<bar>y\<bar>"
    by (rule dvd_mult2)
  then have "(x * y) smod m = 0"
    using m by (simp add: smod_pos_def abs_mult)
  ultimately show ?thesis
    by simp
next
  case False
  have "(x smod m * y) smod m = sgn (x smod m) * sgn y * ((\<bar>x smod m\<bar> * \<bar>y\<bar>) mod m)"
    using m by (simp add: smod_pos_def abs_mult sgn_mult)
  also have "\<dots> = sgn x * sgn y * (((\<bar>x\<bar> mod m) * \<bar>y\<bar>) mod m)"
    using m False by (simp add: abs_smod sgn_smod)
  also have "\<dots> = sgn x * sgn y * ((\<bar>x\<bar> * \<bar>y\<bar>) mod m)"
    by (simp add: mod_mult_left_eq)
  also have "\<dots> = (x * y) smod m"
    using m by (simp add: smod_pos_def abs_mult sgn_mult)
  finally show ?thesis .
qed

lemma smod_mult_right:
  fixes x y m :: int
  assumes m: "0 < m"
  shows "(x * (y smod m)) smod m = (x * y) smod m"
  using smod_mult_left [OF m, of y x] by (simp add: mult.commute)

lemma smod_power_right:
  fixes x y m :: int
  assumes m: "0 < m"
  shows "(x * (y smod m) ^ k) smod m = (x * y ^ k) smod m"
proof (induction k arbitrary: x)
  case 0
  show ?case by simp
next
  case (Suc k)
  have "(x * (y smod m) ^ Suc k) smod m = ((x * (y smod m)) * (y smod m) ^ k) smod m"
    by (simp add: mult.assoc)
  also have "\<dots> = ((x * (y smod m)) * y ^ k) smod m"
    by (rule Suc.IH)
  also have "\<dots> = ((y ^ k * x) * (y smod m)) smod m"
    by (simp add: mult.assoc mult.commute mult.left_commute)
  also have "\<dots> = ((y ^ k * x) * y) smod m"
    using m by (rule smod_mult_right)
  also have "\<dots> = (x * y ^ Suc k) smod m"
    by (simp add: mult.assoc mult.commute mult.left_commute)
  finally show ?case .
qed

lemma smod_nonneg: "0 < m \<Longrightarrow> 0 \<le> x \<Longrightarrow> 0 \<le> x smod m" for x m :: int
  by (simp add: smod_nonneg_eq)

lemma abs_prod_bound:
  fixes x y k :: int
  assumes "\<bar>x\<bar> \<le> k" "\<bar>y\<bar> \<le> k"
  shows "\<bar>x * y\<bar> \<le> k * k"
proof -
  have "\<bar>x\<bar> * \<bar>y\<bar> \<le> k * k"
    using assms by (intro mult_mono) auto
  then show ?thesis
    by (simp add: abs_mult)
qed

lemma in_range_abs_le:
  assumes "\<bar>x\<bar> \<le> max_val T" "\<not> is_signed T \<longrightarrow> 0 \<le> x"
  shows "in_range T x"
  using assms by (cases "is_signed T") (auto simp: in_range_def min_val_signed min_val_unsigned)

lemma residue_smod:
  assumes "0 < m" "\<not> is_signed T \<longrightarrow> 0 \<le> x"
  shows "residue T m (x smod m)"
  using assms abs_smod_less [of m x] by (auto simp: residue_def smod_nonneg)

lemma residue_prod_in_range:
  assumes "residue T m x \<or> x = 1" "residue T m y" "(m - 1) * (m - 1) \<le> max_val T"
  shows "in_range T (x * y)" "\<not> is_signed T \<longrightarrow> 0 \<le> x * y"
proof -
  from assms(2) have y: "\<bar>y\<bar> \<le> m - 1" and m: "1 \<le> m"
    by (auto simp: residue_def)
  have "\<bar>x * y\<bar> \<le> (m - 1) * (m - 1)"
  proof (cases "residue T m x")
    case True
    then have "\<bar>x\<bar> \<le> m - 1"
      by (auto simp: residue_def)
    with y show ?thesis
      by (intro abs_prod_bound)
  next
    case False
    with assms(1) have x: "x = 1"
      by simp
    have "\<bar>y\<bar> * 1 \<le> \<bar>y\<bar> * \<bar>y\<bar>" if "y \<noteq> 0"
      using that by (intro mult_left_mono) auto
    then have "\<bar>y\<bar> \<le> \<bar>y\<bar> * \<bar>y\<bar>"
      by (cases "y = 0") simp_all
    also have "\<dots> \<le> (m - 1) * (m - 1)"
      using y by (intro mult_mono) auto
    finally show ?thesis
      using x by simp
  qed
  with assms(3) have bound: "\<bar>x * y\<bar> \<le> max_val T"
    by linarith
  show nn: "\<not> is_signed T \<longrightarrow> 0 \<le> x * y"
    using assms(1,2) by (auto simp: residue_def)
  from bound nn show "in_range T (x * y)"
    by (rule in_range_abs_le)
qed

lemma modPow_loop_eq:
  assumes m: "0 < m" and bound: "(m - 1) * (m - 1) \<le> max_val T"
    and "e \<noteq> 0" "residue T m f \<or> f = 1" "residue T m c"
  shows "modPow_loop T m f e c = Inr ((f * c ^ e) smod m)"
  using assms(3-)
proof (induction e arbitrary: f c rule: less_induct)
  case (less e)
  define f' where "f' = (if odd e then (f * c) smod m else f)"
  define c' where "c' = (c * c) smod m"
  note fc = residue_prod_in_range [OF less.prems(2) less.prems(3) bound]
  have "residue T m c \<or> c = 1"
    using less.prems(3) ..
  note cc = residue_prod_in_range [OF this less.prems(3) bound]
  have unfold: "modPow_loop T m f e c = modPow_loop T m f' (e div 2) c'"
    using less.prems(1) fc(1) cc(1) m by (simp add: modPow_loop_unfold f'_def c'_def)
  have rf: "residue T m f' \<or> f' = 1"
    using less.prems(2) residue_smod [OF m fc(2)] by (auto simp: f'_def)
  have rc: "residue T m c'"
    unfolding c'_def using m cc(2) by (rule residue_smod)
  have pow: "(f' * c' ^ (e div 2)) smod m = (f * c ^ e) smod m"
  proof -
    have "(f' * c' ^ (e div 2)) smod m = (f' * (c * c) ^ (e div 2)) smod m"
      unfolding c'_def using m by (rule smod_power_right)
    also have "\<dots> = ((c * c) ^ (e div 2) * f') smod m"
      by (simp add: mult.commute)
    also have "\<dots> = ((c * c) ^ (e div 2) * (f * c ^ (e mod 2))) smod m"
    proof (cases "odd e")
      case True
      then have "e mod 2 = 1"
        by (simp add: odd_iff_mod_2_eq_one)
      with True m show ?thesis
        by (simp add: f'_def smod_mult_right)
    next
      case False
      then show ?thesis
        by (simp add: f'_def)
    qed
    also have "(c * c) ^ (e div 2) * (f * c ^ (e mod 2)) = f * c ^ e"
    proof -
      have "c ^ e = c ^ (2 * (e div 2) + e mod 2)"
        by simp
      also have "\<dots> = (c ^ 2) ^ (e div 2) * c ^ (e mod 2)"
        by (simp only: power_add power_mult)
      finally have "c ^ e = (c * c) ^ (e div 2) * c ^ (e mod 2)"
        by (simp only: power2_eq_square)
      then show ?thesis
        by (simp only: mult.left_commute)
    qed
    finally show ?thesis .
  qed
  show ?case
  proof (cases "e div 2 = 0")
    case True
    then have "modPow_loop T m f e c = Inr f'"
      by (simp add: unfold modPow_loop_0)
    moreover from True less.prems(1) have e: "e = 1"
      by (cases e) auto
    then have "f' = (f * c ^ e) smod m"
      by (simp add: f'_def)
    ultimately show ?thesis
      by simp
  next
    case False
    moreover have "e div 2 < e"
      using less.prems(1) by simp
    ultimately have "modPow_loop T m f' (e div 2) c' = Inr ((f' * c' ^ (e div 2)) smod m)"
      using rf rc by (intro less.IH)
    with unfold pow show ?thesis
      by simp
  qed
qed

section \<open>Fermat's little theorem and the RSA exponent\<close>

lemma is_prime_dvd:
  assumes "is_prime p" "m dvd p"
  shows "m = 1 \<or> m = p"
proof (rule ccontr)
  assume neg: "\<not> (m = 1 \<or> m = p)"
  from assms have p: "1 < p" and "m \<le> p" "m \<noteq> 0"
    by (auto simp: is_prime_def dest: dvd_imp_le intro: ccontr)
  with neg have "m \<in> {2..<p}"
    by auto
  with assms show False
    by (auto simp: is_prime_def)
qed

lemma is_prime_coprime:
  assumes "is_prime p" "\<not> p dvd a"
  shows "coprime p a"
proof (rule coprimeI)
  fix c
  assume "c dvd p" "c dvd a"
  with assms is_prime_dvd [of p c] show "is_unit c"
    by auto
qed

lemma is_prime_dvd_choose:
  assumes p: "is_prime p" and k: "0 < k" "k < p"
  shows "p dvd (p choose k)"
proof -
  have "k * (p choose k) = p * ((p - 1) choose (k - 1))"
    using k(1) by (rule times_binomial_minus1_eq)
  then have "p dvd k * (p choose k)"
    by simp
  moreover have "\<not> p dvd k"
    using k by (auto dest: dvd_imp_le)
  with p have "coprime p k"
    by (rule is_prime_coprime)
  ultimately show ?thesis
    by (simp add: coprime_dvd_mult_right_iff)
qed

lemma fermat_little:
  assumes p: "is_prime p"
  shows "a ^ p mod p = a mod p"
proof (induction a)
  case 0
  from p have "0 < p"
    by (simp add: is_prime_def)
  then show ?case
    by (simp add: power_0_left)
next
  case (Suc a)
  from p have pos: "0 < p"
    by (simp add: is_prime_def)
  define g where "g k = (p choose k) * a ^ k" for k
  have "Suc a ^ p = (\<Sum>k\<le>p. g k)"
    using binomial [of a 1 p] by (simp add: g_def)
  also have "\<dots> = g p + (\<Sum>k<p. g k)"
    by (simp add: lessThan_Suc_atMost [symmetric])
  also have "(\<Sum>k<p. g k) = g 0 + (\<Sum>k\<in>{Suc 0..<p}. g k)"
    using pos by (simp add: atLeast0LessThan [symmetric] sum.atLeast_Suc_lessThan)
  finally have expand: "Suc a ^ p = a ^ p + 1 + (\<Sum>k\<in>{Suc 0..<p}. g k)"
    by (simp add: g_def)
  have "p dvd (\<Sum>k\<in>{Suc 0..<p}. g k)"
  proof (rule dvd_sum)
    fix k
    assume "k \<in> {Suc 0..<p}"
    then have "p dvd (p choose k)"
      using p by (intro is_prime_dvd_choose) auto
    then show "p dvd g k"
      by (simp add: g_def)
  qed
  then obtain c where "(\<Sum>k\<in>{Suc 0..<p}. g k) = p * c"
    by (elim dvdE)
  then have "Suc a ^ p = a ^ p + 1 + p * c"
    by (simp only: expand)
  then have "Suc a ^ p mod p = (a ^ p + 1) mod p"
    by (simp only: mod_mult_self2)
  also have "\<dots> = (a ^ p mod p + 1) mod p"
    by (simp only: mod_add_left_eq)
  also have "\<dots> = (a mod p + 1) mod p"
    by (simp only: Suc.IH)
  also have "\<dots> = Suc a mod p"
    by (simp only: mod_add_left_eq Suc_eq_plus1)
  finally show ?case .
qed

lemma fermat_unit:
  assumes p: "is_prime p" and a: "\<not> p dvd a"
  shows "a ^ (p - 1) mod p = 1"
proof -
  from p have p1: "1 < p"
    by (simp add: is_prime_def)
  have cop: "coprime p a"
    using p a by (rule is_prime_coprime)
  have a0: "0 < a"
    using a by (cases a) auto
  then have ge: "1 \<le> a ^ (p - 1)"
    by simp
  have "int p dvd int (a ^ p) - int a"
    using fermat_little [OF p, of a] by (metis mod_eq_dvd_iff zmod_int)
  moreover have "int (a ^ p) - int a = int a * (int (a ^ (p - 1)) - 1)"
    using p1 by (simp add: algebra_simps power_eq_if [of _ p])
  moreover have "coprime (int p) (int a)"
    using cop by simp
  ultimately have "int p dvd int (a ^ (p - 1)) - 1"
    by (simp add: coprime_dvd_mult_right_iff)
  then have "int (a ^ (p - 1)) mod int p = 1 mod int p"
    by (simp only: mod_eq_dvd_iff)
  also have "1 mod int p = 1"
    using p1 by simp
  finally have "int (a ^ (p - 1) mod p) = int 1"
    by (simp only: zmod_int of_nat_1)
  then show ?thesis
    by (simp only: of_nat_eq_iff)
qed

lemma fermat_exponent:
  assumes p: "is_prime p"
  shows "a ^ Suc (k * (p - 1)) mod p = a mod p"
proof (cases "p dvd a")
  case True
  then have "p dvd a ^ Suc (k * (p - 1))"
    by simp
  with True show ?thesis
    by (simp only: mod_eq_0_iff_dvd [symmetric])
next
  case False
  have "a ^ (k * (p - 1)) = a ^ ((p - 1) * k)"
    by (simp only: mult.commute)
  then have "a ^ Suc (k * (p - 1)) = a * (a ^ (p - 1)) ^ k"
    by (simp only: power_Suc power_mult)
  then have "a ^ Suc (k * (p - 1)) mod p = (a * (a ^ (p - 1)) ^ k) mod p"
    by (rule arg_cong)
  also have "\<dots> = (a * (a ^ (p - 1) mod p) ^ k) mod p"
    by (metis mod_mult_right_eq power_mod)
  also have "\<dots> = a mod p"
    by (simp only: fermat_unit [OF p False] power_one mult_1_right)
  finally show ?thesis .
qed

lemma rsa_exponent:
  fixes M :: int
  assumes p: "is_prime p" and q: "is_prime q" and neq: "p \<noteq> q"
    and x: "x mod ((p - 1) * (q - 1)) = 1"
    and M: "0 \<le> M" "M < int p * int q"
  shows "M ^ x mod (int p * int q) = M"
proof -
  define z where "z = (p - 1) * (q - 1)"
  define k where "k = x div z"
  have "x = k * z + x mod z"
    by (simp add: k_def)
  with x have xz: "x = Suc (k * z)"
    by (simp add: z_def)
  define m where "m = nat M"
  have Mm: "M = int m"
    using M by (simp add: m_def)
  have "m ^ x mod p = m mod p"
    using fermat_exponent [OF p, of m "k * (q - 1)"] by (simp add: xz z_def mult.commute mult.left_commute)
  then have dp: "int p dvd M ^ x - M"
    by (metis Mm mod_eq_dvd_iff of_nat_power zmod_int)
  have "m ^ x mod q = m mod q"
    using fermat_exponent [OF q, of m "k * (p - 1)"] by (simp add: xz z_def mult.commute mult.left_commute)
  then have dq: "int q dvd M ^ x - M"
    by (metis Mm mod_eq_dvd_iff of_nat_power zmod_int)
  have "\<not> p dvd q"
    using is_prime_dvd [OF q, of p] p neq by (auto simp: is_prime_def)
  with p have "coprime p q"
    by (rule is_prime_coprime)
  then have "coprime (int p) (int q)"
    by simp
  with dp dq have "int p * int q dvd M ^ x - M"
    by (intro divides_mult)
  then have "M ^ x mod (int p * int q) = M mod (int p * int q)"
    by (simp add: mod_eq_dvd_iff)
  with M show ?thesis
    by simp
qed

section \<open>Modular exponentiation and the RSA round trip\<close>

lemma abs_cpp_pos: "0 < n \<Longrightarrow> abs_cpp T n = Inr n"
  by (simp add: abs_cpp_def)

lemma modPow_pos:
  assumes "in_range T a" "0 < m" "(m - 1) * (m - 1) \<le> max_val T" "0 < n"
  shows "modPow T a n m = Inr ((a ^ nat n) smod m)"
proof -
  have red: "modPow_reduce T a m = Inr (a smod m)"
    using assms(1,2) by (simp add: modPow_reduce_def c_mod_pos)
  have "\<not> is_signed T \<longrightarrow> 0 \<le> a"
    using assms(1) by (auto simp: in_range_def min_val_unsigned)
  with assms(2) have res: "residue T m (a smod m)"
    by (rule residue_smod)
  have one: "residue T m 1 \<or> (1::int) = 1"
    by simp
  have "nat n \<noteq> 0"
    using assms(4) by simp
  from modPow_loop_eq [OF assms(2,3) this one res]
  have "modPow_loop T m 1 (nat n) (a smod m) = Inr ((1 * a ^ nat n) smod m)"
    using assms(2) by (simp only: smod_power_right)
  with red assms(4) show ?thesis
    by (simp add: modPow_def abs_cpp_pos)
qed

lemma modPow_nonneg:
  assumes "0 \<le> a" "a \<le> max_val T" "0 < m" "(m - 1) * (m - 1) \<le> max_val T" "0 < n"
  shows "modPow T a n m = Inr (a ^ nat n mod m)"
proof -
  have "in_range T a"
    using assms(1,2) by (rule in_range_nonneg)
  then have "modPow T a n m = Inr ((a ^ nat n) smod m)"
    using assms(3-5) by (rule modPow_pos)
  moreover have "(a ^ nat n) smod m = a ^ nat n mod m"
    using assms(1,3) by (simp add: smod_nonneg_eq)
  ultimately show ?thesis
    by simp
qed

text \<open>
  Claim C3. Let \<open>P\<close> and \<open>Q\<close> be distinct primes, \<open>N = P * Q\<close> and
  \<open>Phi = (P - 1) * (Q - 1)\<close>, with \<open>(N - 1)\<^sup>2\<close> within the integer type (no product of
  two residues overflows) and \<open>Phi\<close> within \<^verbatim>\<open>int\<close>. For every exponent \<open>e\<close> with
  \<open>0 < e \<le> INT_MAX\<close> coprime with \<open>Phi\<close>, \<^verbatim>\<open>invMul(e, Phi)\<close> returns some \<open>d\<close> with
  \<open>0 < d < Phi\<close>, and for every \<open>M\<close> with \<open>0 \<le> M < N\<close> the encryption
  \<^verbatim>\<open>modPow(M, e, N)\<close> returns some \<open>C\<close> and \<^verbatim>\<open>modPow(C, d, N)\<close> returns \<open>M\<close>, all without
  a fault.
\<close>

theorem rsa_round_trip:
  assumes P: "is_prime P" and Q: "is_prime Q" and PQ: "P \<noteq> Q"
    and N: "N = int P * int Q" and Phi: "Phi = (int P - 1) * (int Q - 1)"
    and bound: "(N - 1) * (N - 1) \<le> max_val T" and Phi_int: "Phi \<le> max_val T_int"
    and e: "0 < e" "e \<le> max_val T_int" and cop: "gcd e Phi = 1"
    and M: "0 \<le> M" "M < N"
  shows "\<exists>d C. invMul T e Phi = Inr d \<and> 0 < d \<and> d < Phi \<and>
           modPow T M e N = Inr C \<and> modPow T C d N = Inr M"
proof -
  from P Q have P2: "2 \<le> P" and Q2: "2 \<le> Q"
    by (auto simp: is_prime_def)
  with PQ have "3 \<le> P \<or> 3 \<le> Q"
    by auto
  then have two: "2 \<le> (P - 1) * (Q - 1)"
  proof
    assume "3 \<le> P"
    then have "2 * 1 \<le> (P - 1) * (Q - 1)"
      using Q2 by (intro mult_mono) auto
    then show ?thesis by simp
  next
    assume "3 \<le> Q"
    then have "1 * 2 \<le> (P - 1) * (Q - 1)"
      using P2 by (intro mult_mono) auto
    then show ?thesis by simp
  qed
  have Phi_nat: "Phi = int ((P - 1) * (Q - 1))"
    using P2 Q2 by (simp add: Phi of_nat_diff)
  have Phi2: "2 \<le> Phi"
    unfolding Phi_nat using two by linarith
  have "2 * 2 \<le> P * Q"
    using P2 Q2 by (intro mult_mono) auto
  then have N4: "4 \<le> N"
    unfolding N by (simp flip: of_nat_mult)
  have "(N - 1) * 1 \<le> (N - 1) * (N - 1)"
    using N4 by (intro mult_left_mono) auto
  with bound have N_max: "N - 1 \<le> max_val T"
    by simp
  have rng: "in_range T Phi" "in_range T e" "\<bar>Phi\<bar> \<le> max_val T_int" "\<bar>e\<bar> \<le> max_val T_int"
    using Phi2 Phi_int e max_val_ge_int [of T] by (auto intro: in_range_nonneg)
  from invMul_char [OF rng] cop Phi2 e(1) obtain d where
    inv: "invMul T e Phi = Inr d" and d: "0 \<le> d" "d < Phi" and ed: "(d * e) mod Phi = 1"
    by (auto simp: gcd.commute)
  have "d \<noteq> 0"
    using ed by auto
  with d have d0: "0 < d"
    by simp
  have enc: "modPow T M e N = Inr (M ^ nat e mod N)"
    using M N_max N4 bound e(1) by (intro modPow_nonneg) auto
  define C where "C = M ^ nat e mod N"
  have C: "0 \<le> C" "C < N"
    using N4 by (simp_all add: C_def)
  have dec: "modPow T C d N = Inr (C ^ nat d mod N)"
    using C N_max N4 bound d0 by (intro modPow_nonneg) auto
  have "C ^ nat d mod N = M ^ (nat e * nat d) mod N"
    by (simp add: C_def power_mod power_mult)
  moreover have "(nat e * nat d) mod ((P - 1) * (Q - 1)) = 1"
  proof -
    have "int ((nat e * nat d) mod ((P - 1) * (Q - 1))) = (e * d) mod Phi"
      using e(1) d(1) by (simp add: Phi_nat zmod_int)
    also have "\<dots> = 1"
      using ed by (simp add: mult.commute)
    finally show ?thesis
      by simp
  qed
  then have "M ^ (nat e * nat d) mod (int P * int Q) = M"
    using P Q PQ M unfolding N by (intro rsa_exponent)
  ultimately have "C ^ nat d mod N = M"
    by (simp add: N)
  with inv d0 d enc dec show ?thesis
    by (auto simp: C_def)
qed

theorem rsa_round_trip_witness:
  "is_prime 61 \<and> is_prime 53 \<and> (3233::int) = int 61 * int 53 \<and>
   (3120::int) = (int 61 - 1) * (int 53 - 1) \<and> gcd (17::int) 3120 = 1 \<and>
   invMul T_unsigned 17 3120 = Inr 2753 \<and> modPow T_unsigned 65 17 3233 = Inr 2790 \<and>
   modPow T_unsigned 2790 2753 3233 = Inr 65"
proof -
  have p: "is_prime 61" "is_prime 53" "(61::nat) \<noteq> 53"
    by (simp_all add: is_prime_def) code_simp+
  have n: "(3233::int) = int 61 * int 53" "(3120::int) = (int 61 - 1) * (int 53 - 1)"
    by simp_all
  have b: "((3233::int) - 1) * (3233 - 1) \<le> max_val T_unsigned" "(3120::int) \<le> max_val T_int"
    "(0::int) < 17" "(17::int) \<le> max_val T_int" "(0::int) \<le> 65" "(65::int) < 3233"
    by (simp_all add: max_val_def)
  have g: "gcd (17::int) 3120 = 1"
    by code_simp
  from rsa_round_trip [OF p n b(1-4) g b(5,6)] obtain d C where
    "invMul T_unsigned 17 3120 = Inr d" "modPow T_unsigned 65 17 3233 = Inr C"
    "modPow T_unsigned C d 3233 = Inr 65"
    by blast
  with p n g show ?thesis
    by (simp add: worked_inv worked_enc)
qed

text \<open>
  For \<^verbatim>\<open>int\<close>, the exponent \<open>- 3\<close> is coprime with \<open>Phi = 8\<close> and has the inverse
  \<open>- 3\<close>, but the message 3 is not invertible modulo 15: it is encrypted to 0,
  and 0 is decrypted to 0. For \<^verbatim>\<open>unsigned\<close>, the odd exponent \<open>2\<^sup>3\<^sup>1 + 1\<close> is coprime
  with \<open>Phi = 2\<close>, but \<^verbatim>\<open>invMul\<close> reads it as a negative \<^verbatim>\<open>int\<close> and returns 0: the
  message 2 is encrypted to 2 and decrypted to 1.
\<close>

theorem rsa_round_trip_counterexample:
  "is_prime 3 \<and> is_prime 5 \<and> gcd (- 3) ((int 3 - 1) * (int 5 - 1)) = 1 \<and>
   invMul T_int (- 3) ((int 3 - 1) * (int 5 - 1)) = Inr (- 3) \<and>
   modPow T_int 3 (- 3) (int 3 * int 5) = Inr 0 \<and>
   modPow T_int 0 (- 3) (int 3 * int 5) = Inr 0 \<and>
   is_prime 2 \<and> gcd 2147483649 ((int 2 - 1) * (int 3 - 1)) = 1 \<and>
   in_range T_unsigned 2147483649 \<and>
   invMul T_unsigned 2147483649 ((int 2 - 1) * (int 3 - 1)) = Inr 0 \<and>
   modPow T_unsigned 2 2147483649 (int 2 * int 3) = Inr 2 \<and>
   modPow T_unsigned 2 0 (int 2 * int 3) = Inr 1"
proof -
  have p: "is_prime 2" "is_prime 3" "is_prime 5"
    by (simp_all add: is_prime_def) code_simp+
  have g: "gcd (- 3) (8::int) = 1" "gcd 2147483649 (2::int) = 1"
    by code_simp+
  have i: "invMul T_int (- 3) 8 = Inr (- 3)" "invMul T_int 3 15 = Inr 0" "invMul T_int 0 15 = Inr 0"
    "invMul T_unsigned 2147483649 2 = Inr 0"
    by code_simp+
  have "modPow T_int 3 (- 3) 15 = Inr 0" "modPow T_int 0 (- 3) 15 = Inr 0"
    "modPow T_unsigned 2 2147483649 6 = Inr 2" "modPow T_unsigned 2 0 6 = Inr 1"
    by (simp_all add: modPow_def modPow_reduce_def c_mod_def arith_def abs_cpp_def c_sub_def i
        modPow_loop_unfold modPow_loop_0 in_range_def min_val_def max_val_def
        signed_modulo_int_def signed_divide_int_def)
  with p g i show ?thesis
    by (simp add: in_range_def min_val_def max_val_def)
qed

section \<open>Negative exponents\<close>

lemma inverse_unique:
  fixes y y' b m :: int
  assumes "0 \<le> y" "y < m" "0 \<le> y'" "y' < m" "(y * b) mod m = 1" "(y' * b) mod m = 1"
  shows "y = y'"
proof -
  have "y mod m = (y * 1) mod m"
    by simp
  also have "\<dots> = (y * ((y' * b) mod m)) mod m"
    by (simp only: assms(6))
  also have "\<dots> = (y * (y' * b)) mod m"
    by (simp only: mod_mult_right_eq)
  also have "y * (y' * b) = y' * (y * b)"
    by (simp only: mult.left_commute)
  also have "(y' * (y * b)) mod m = (y' * ((y * b) mod m)) mod m"
    by (simp only: mod_mult_right_eq)
  also have "\<dots> = y' mod m"
    by (simp only: assms(5) mult_1_right)
  finally show ?thesis
    using assms(1-4) by simp
qed

lemma gcd_smod:
  fixes x m :: int
  assumes "0 < m"
  shows "gcd (x smod m) m = gcd x m"
proof -
  have "gcd (x smod m) m = gcd \<bar>x smod m\<bar> m"
    by simp
  also have "\<dots> = gcd (\<bar>x\<bar> mod m) m"
    using assms by (simp only: abs_smod)
  also have "\<dots> = gcd \<bar>x\<bar> m"
    by (metis gcd.commute gcd_red_int)
  finally show ?thesis
    by simp
qed

lemma abs_cpp_neg:
  assumes "is_signed T" "0 < n" "n \<le> max_val T"
  shows "abs_cpp T (- n) = Inr n"
proof -
  have "in_range T (- n)" "- n \<noteq> min_val T"
    using assms by (simp_all add: in_range_def min_val_signed)
  then have "abs_cpp T (- n) = Inr \<bar>- n\<bar>"
    by (intro abs_cpp_eq) simp_all
  with assms(2) show ?thesis
    by simp
qed

lemma modPow_neg:
  assumes sg: "is_signed T" and a: "in_range T a" and m: "0 < m"
    and bound: "(m - 1) * (m - 1) \<le> max_val T" and n: "0 < n" "n \<le> max_val T"
    and inv: "invMul T (a smod m) m = Inr c'" and c': "\<bar>c'\<bar> < m"
  shows "modPow T a (- n) m = Inr ((c' ^ nat n) smod m)"
proof -
  have red: "modPow_reduce T a m = Inr (a smod m)"
    using a m by (simp add: modPow_reduce_def c_mod_pos)
  have res: "residue T m c'"
    using c' sg by (simp add: residue_def)
  have one: "residue T m 1 \<or> (1::int) = 1"
    by simp
  have "nat n \<noteq> 0"
    using n(1) by simp
  from modPow_loop_eq [OF m bound this one res]
  have "modPow_loop T m 1 (nat n) c' = Inr ((c' ^ nat n) smod m)"
    by simp
  with red inv n(1) abs_cpp_neg [OF sg n] show ?thesis
    by (simp add: modPow_def)
qed

lemma invMul_signed_inverse:
  assumes "in_range T c" "\<bar>c\<bar> < m" "m \<le> max_val T_int" "2 \<le> m" "gcd c m = 1"
  shows "\<exists>y. invMul T c m = Inr (if c < 0 then - y else y) \<and> 0 < y \<and> y < m \<and>
           (y * \<bar>c\<bar>) mod m = 1"
proof -
  have rng: "in_range T m" "in_range T c" "\<bar>m\<bar> \<le> max_val T_int" "\<bar>c\<bar> \<le> max_val T_int"
    using assms max_val_ge_int [of T] by (auto intro: in_range_nonneg)
  from invMul_char [OF rng] assms(4,5) obtain y where
    res: "invMul T c m = Inr (if c < 0 then - y else y)" and
    y: "0 \<le> y" "y < m" "(y * \<bar>c\<bar>) mod m = 1"
    by (auto simp: gcd.commute)
  have "y \<noteq> 0"
    using y(3) by auto
  with res y show ?thesis
    by (intro exI [of _ y]) simp
qed

lemma invMul_one:
  assumes "0 < m" "m \<le> max_val T_int"
  shows "invMul T 1 m = Inr 1"
proof -
  have rng: "in_range T m" "in_range T 1" "\<bar>m\<bar> \<le> max_val T_int" "\<bar>1\<bar> \<le> max_val T_int"
    using assms max_val_ge_int [of T] max_val_pos [of T_int] by (auto intro: in_range_nonneg)
  from invMul_char [OF rng] obtain y n where
    loop: "invMul_loop \<bar>m\<bar> \<bar>1\<bar> 0 1 = Inr (1, y)" and
    n: "n = (if y < 0 then y + \<bar>m\<bar> else y)" and
    res: "invMul T 1 m = Inr n" and
    big: "2 \<le> \<bar>m\<bar> \<longrightarrow> n < \<bar>m\<bar> \<and> (n * \<bar>1\<bar>) mod \<bar>m\<bar> = 1" and pos: "0 \<le> n"
    by auto
  show ?thesis
  proof (cases "m = 1")
    case True
    have "invMul_loop 1 1 0 1 = Inr (1, 1)"
      by code_simp
    with loop True have "y = 1"
      by simp
    with n res show ?thesis
      by simp
  next
    case False
    with assms(1) big pos have "n < m" "n mod m = 1" "0 \<le> n"
      by auto
    then have "n = 1"
      by simp
    with res show ?thesis
      by simp
  qed
qed

lemma invMul_zero_one: "invMul T 0 1 = Inr 0"
proof -
  have rng: "in_range T 1" "in_range T 0" "\<bar>1\<bar> \<le> max_val T_int" "\<bar>0\<bar> \<le> max_val T_int"
    using max_val_pos [of T] max_val_pos [of T_int] by (auto intro: in_range_nonneg)
  from invMul_char [OF rng] obtain y n where
    loop: "invMul_loop \<bar>1\<bar> \<bar>0\<bar> 0 1 = Inr (1, y)" and
    n: "n = (if y < 0 then y + \<bar>1\<bar> else y)" and
    res: "invMul T 0 1 = Inr n"
    by auto
  have "invMul_loop 1 0 0 1 = Inr (1, 0)"
    by code_simp
  with loop have "y = 0"
    by simp
  with n res show ?thesis
    by simp
qed

lemma smod_one: "x smod 1 = 0" for x :: int
  by (simp add: signed_modulo_int_def)

lemma power_inverse_mod:
  fixes y c m :: int
  assumes "(y * c) mod m = 1"
  shows "((y ^ k mod m) * (c ^ k mod m)) mod m = 1 mod m"
proof -
  have "((y ^ k mod m) * (c ^ k mod m)) mod m = (y ^ k * c ^ k) mod m"
    by (simp only: mod_mult_eq)
  also have "\<dots> = ((y * c) ^ k) mod m"
    by (simp only: power_mult_distrib)
  also have "\<dots> = ((y * c) mod m) ^ k mod m"
    by (simp only: power_mod)
  also have "\<dots> = 1 mod m"
    by (simp only: assms power_one)
  finally show ?thesis .
qed

lemma signed_power_smod:
  fixes c c' y0 y1 r m :: int
  assumes m: "2 \<le> m" and c: "c \<noteq> 0" and y0: "0 < y0"
    and c': "c' = (if c < 0 then - y0 else y0)"
    and r: "r = (c ^ k) smod m" and rnz: "\<bar>c\<bar> ^ k mod m \<noteq> 0"
    and y1: "y1 = y0 ^ k mod m"
  shows "(c' ^ k) smod m = (if r < 0 then - y1 else y1)"
proof -
  have mpos: "0 < m"
    using m by simp
  have "\<bar>c'\<bar> = y0"
    using y0 by (simp add: c')
  then have abs: "\<bar>c'\<bar> ^ k mod m = y1"
    by (simp add: y1)
  have sg: "sgn c' = sgn c"
    using y0 c by (simp add: c' sgn_if)
  have lhs: "(c' ^ k) smod m = sgn c ^ k * y1"
    using mpos by (simp add: smod_pos_def power_abs abs sg)
  have "0 \<le> \<bar>c\<bar> ^ k mod m"
    using mpos by simp
  with rnz have rmag: "0 < \<bar>c\<bar> ^ k mod m"
    by simp
  have rdef: "r = sgn c ^ k * (\<bar>c\<bar> ^ k mod m)"
    using mpos by (simp add: r smod_pos_def power_abs)
  have "sgn c = 1 \<or> sgn c = - 1"
    using c by (auto simp: sgn_if)
  then have "sgn c ^ k = 1 \<or> sgn c ^ k = - 1"
    by (cases "even k") auto
  then consider "sgn c ^ k = 1" | "sgn c ^ k = - 1"
    by blast
  then show ?thesis
  proof cases
    case 1
    with rdef rmag have "\<not> r < 0"
      by simp
    with 1 lhs show ?thesis
      by simp
  next
    case 2
    with rdef rmag have "r < 0"
      by simp
    with 2 lhs show ?thesis
      by simp
  qed
qed

text \<open>
  Claim C8. Let the integer type be signed, the modulus positive and within
  \<^verbatim>\<open>int\<close>, and \<open>(modulus - 1)\<^sup>2\<close> within the type, so that no product of two residues
  overflows. For every base coprime with the modulus and every \<open>n\<close> from 0 to the
  maximum of the type, \<^verbatim>\<open>modPow(base, n, modulus)\<close> returns some \<open>r\<close>,
  \<^verbatim>\<open>invMul(r, modulus)\<close> returns some \<open>v\<close>, and \<^verbatim>\<open>modPow(base, -n, modulus)\<close> returns
  the same \<open>v\<close>, all without a fault.
\<close>

theorem modPow_negative_exponent:
  assumes sg: "is_signed T" and base: "in_range T base"
    and m: "0 < modulus" "modulus \<le> max_val T_int"
    and bound: "(modulus - 1) * (modulus - 1) \<le> max_val T"
    and cop: "gcd base modulus = 1" and n: "0 \<le> n" "n \<le> max_val T"
  shows "\<exists>r v. modPow T base n modulus = Inr r \<and> invMul T r modulus = Inr v \<and>
           modPow T base (- n) modulus = Inr v"
proof -
  consider (zero) "n = 0" | (one) "0 < n" "modulus = 1" | (big) "0 < n" "2 \<le> modulus"
    using n(1) m(1) by linarith
  then show ?thesis
  proof cases
    case zero
    have "modPow T base 0 modulus = Inr 1"
      by (simp add: modPow_def)
    with invMul_one [OF m] zero show ?thesis
      by simp
  next
    case one
    have "modPow T base n modulus = Inr ((base ^ nat n) smod modulus)"
      using base m(1) bound one(1) by (rule modPow_pos)
    then have r: "modPow T base n modulus = Inr 0"
      by (simp add: one(2) smod_one)
    have inv: "invMul T (base smod modulus) modulus = Inr 0"
      by (simp add: one(2) smod_one invMul_zero_one)
    have "\<bar>0::int\<bar> < modulus"
      using m(1) by simp
    from modPow_neg [OF sg base m(1) bound one(1) n(2) inv this] one(1)
    have "modPow T base (- n) modulus = Inr 0"
      by (simp add: one(2) smod_one)
    with r one(2) show ?thesis
      by (simp add: invMul_zero_one)
  next
    case big
    let ?k = "nat n"
    define c where "c = base smod modulus"
    have gc: "gcd c modulus = 1"
      using m(1) cop by (simp add: c_def gcd_smod)
    have cabs: "\<bar>c\<bar> < modulus"
      unfolding c_def using abs_smod_less [of modulus base] m(1) by simp
    have mT: "modulus \<le> max_val T"
      using m(2) max_val_ge_int [of T] by simp
    have cr: "in_range T c"
      using cabs mT sg by (intro in_range_abs_le) auto
    from invMul_signed_inverse [OF cr cabs m(2) big(2) gc] obtain y0 where
      inv0: "invMul T c modulus = Inr (if c < 0 then - y0 else y0)" and
      y0: "0 < y0" "y0 < modulus" and y0c: "(y0 * \<bar>c\<bar>) mod modulus = 1"
      by blast
    define c' where "c' = (if c < 0 then - y0 else y0)"
    have c'abs: "\<bar>c'\<bar> < modulus"
      using y0 by (simp add: c'_def)
    have inv0': "invMul T (base smod modulus) modulus = Inr c'"
      using inv0 by (simp add: c_def c'_def)
    have lhs: "modPow T base (- n) modulus = Inr ((c' ^ ?k) smod modulus)"
      using sg base m(1) bound big(1) n(2) inv0' c'abs by (rule modPow_neg)
    define r where "r = (base ^ ?k) smod modulus"
    have rhs: "modPow T base n modulus = Inr r"
      unfolding r_def using base m(1) bound big(1) by (rule modPow_pos)
    have rc: "r = (c ^ ?k) smod modulus"
      using smod_power_right [OF m(1), of 1 base ?k] by (simp add: r_def c_def)
    have rabs: "\<bar>r\<bar> = \<bar>c\<bar> ^ ?k mod modulus"
      using m(1) by (simp add: rc abs_smod power_abs)
    define y1 where "y1 = y0 ^ ?k mod modulus"
    have y1: "0 \<le> y1" "y1 < modulus"
      using m(1) by (simp_all add: y1_def)
    have "(y1 * \<bar>r\<bar>) mod modulus = 1 mod modulus"
      unfolding y1_def rabs using y0c by (rule power_inverse_mod)
    then have y1r: "(y1 * \<bar>r\<bar>) mod modulus = 1"
      using big(2) by simp
    then have rnz: "\<bar>c\<bar> ^ ?k mod modulus \<noteq> 0"
      unfolding rabs by auto
    have rr: "in_range T r" "\<bar>r\<bar> < modulus"
    proof -
      show "\<bar>r\<bar> < modulus"
        using m(1) by (simp add: rabs)
      with mT sg show "in_range T r"
        by (intro in_range_abs_le) auto
    qed
    have "coprime c modulus"
      using gc by (simp add: coprime_iff_gcd_eq_1)
    then have "coprime (c ^ ?k) modulus"
      using big(1) by simp
    then have gr: "gcd r modulus = 1"
      using m(1) by (simp add: rc gcd_smod coprime_iff_gcd_eq_1)
    from invMul_signed_inverse [OF rr m(2) big(2) gr] obtain y where
      invr: "invMul T r modulus = Inr (if r < 0 then - y else y)" and
      y: "0 < y" "y < modulus" and yr: "(y * \<bar>r\<bar>) mod modulus = 1"
      by blast
    have "y = y1"
      using y y1 yr y1r by (intro inverse_unique [of y modulus y1 "\<bar>r\<bar>"]) auto
    have c0: "c \<noteq> 0"
      using gc big(2) by auto
    have "(c' ^ ?k) smod modulus = (if r < 0 then - y1 else y1)"
      using big(2) c0 y0(1) c'_def rc rnz y1_def by (rule signed_power_smod)
    with lhs rhs invr \<open>y = y1\<close> show ?thesis
      by simp
  qed
qed


theorem modPow_negative_exponent_witness:
  "is_signed T_int \<and> in_range T_int (- 2) \<and> gcd (- 2) (7::int) = 1 \<and>
   modPow T_int (- 2) 3 7 = Inr (- 1) \<and> invMul T_int (- 1) 7 = Inr (- 1) \<and>
   modPow T_int (- 2) (- 3) 7 = Inr (- 1)"
proof -
  have h: "is_signed T_int" "in_range T_int (- 2)" "(0::int) < 7" "(7::int) \<le> max_val T_int"
    "((7::int) - 1) * (7 - 1) \<le> max_val T_int"
    by (simp_all add: in_range_def min_val_def max_val_def)
  have g: "gcd (- 2) (7::int) = 1"
    by code_simp
  have n: "(0::int) \<le> 3" "(3::int) \<le> max_val T_int"
    by (simp_all add: max_val_def)
  have v: "modPow T_int (- 2) 3 7 = Inr (- 1)"
    by (simp add: modPow_def modPow_reduce_def c_mod_def arith_def abs_cpp_def
        modPow_loop_unfold modPow_loop_0 in_range_def min_val_def max_val_def
        signed_modulo_int_def signed_divide_int_def)
  have i: "invMul T_int (- 1) 7 = Inr (- 1)"
    by code_simp
  from modPow_negative_exponent [OF h g n] v i h g show ?thesis
    by auto
qed

text \<open>
  For \<^verbatim>\<open>int\<close> and the modulus 100003 the left side squares the inverse 50002, which
  overflows, while the right side returns 25001. For \<^verbatim>\<open>unsigned\<close>, \<open>- 1\<close> is the
  exponent \<open>2\<^sup>3\<^sup>2 - 1\<close>: the left side is an ordinary power, 1, and the right side
  is the inverse 4.
\<close>

theorem modPow_negative_exponent_counterexample:
  "gcd 2 (100003::int) = 1 \<and> modPow T_int 2 2 100003 = Inr 4 \<and>
   invMul T_int 4 100003 = Inr 25001 \<and> modPow T_int 2 (- 2) 100003 = Inl SignedOverflow \<and>
   gcd 2 (7::int) = 1 \<and> c_neg T_unsigned 1 = Inr 4294967295 \<and>
   modPow T_unsigned 2 4294967295 7 = Inr 1 \<and> modPow T_unsigned 2 1 7 = Inr 2 \<and>
   invMul T_unsigned 2 7 = Inr 4"
proof -
  have g: "gcd 2 (100003::int) = 1" "gcd 2 (7::int) = 1"
    by code_simp+
  have i: "invMul T_int 4 100003 = Inr 25001" "invMul T_int 2 100003 = Inr 50002"
    "invMul T_unsigned 2 7 = Inr 4"
    by code_simp+
  have pos: "modPow T_int 2 2 100003 = Inr 4" "modPow T_unsigned 2 4294967295 7 = Inr 1"
    "modPow T_unsigned 2 1 7 = Inr 2"
    by (simp_all add: modPow_def modPow_reduce_def c_mod_def arith_def abs_cpp_def
        modPow_loop_unfold modPow_loop_0 in_range_def min_val_def max_val_def
        signed_modulo_int_def signed_divide_int_def)
  have "modPow_loop T_int 100003 1 2 50002 = Inl SignedOverflow"
    by (subst modPow_loop.simps)
       (simp add: isEven_iff modMul_def c_mul_def arith_def in_range_def min_val_def max_val_def)
  then have neg: "modPow T_int 2 (- 2) 100003 = Inl SignedOverflow"
    by (simp add: modPow_def modPow_reduce_def c_mod_def arith_def abs_cpp_def c_sub_def i
        in_range_def min_val_def max_val_def signed_modulo_int_def signed_divide_int_def)
  have u: "c_neg T_unsigned 1 = Inr 4294967295"
    by (simp add: c_neg_def arith_def)
  from g i pos neg u show ?thesis
    by simp
qed

end
